theory Spec2Isabelle
  imports Main "HOL-Library.Word"
begin

section \<open>Strings and chapters\<close>

text \<open>
  A JavaScript string is a sequence of UTF-16 code units and \<^verbatim>\<open>.length\<close> counts them,
  so strings are lists of 16-bit words. Literals of the source that are not ASCII are
  written as their code units.
\<close>

type_synonym jsstring = "16 word list"

definition ascii :: "string \<Rightarrow> jsstring" where
  "ascii cs = map of_char cs"

text \<open>
  Chapter indices are the non-negative integers that the reader and the detail page pass
  (\<^verbatim>\<open>0\<close>, \<^verbatim>\<open>chapterIndex + i\<close>, \<^verbatim>\<open>Math.max(0, prev - 1)\<close>); a template literal prints
  such a number in decimal.
\<close>

fun decimal :: "nat \<Rightarrow> jsstring" where
  "decimal n = (if n < 10 then [of_nat (48 + n)]
                else decimal (n div 10) @ [of_nat (48 + n mod 10)])"

declare decimal.simps [simp del]

text \<open>\<^verbatim>\<open>interface Chapter { id; title; content; number }\<close> of types.ts.\<close>

record Chapter =
  ch_id :: jsstring
  ch_title :: jsstring
  ch_content :: jsstring
  ch_number :: nat

text \<open>\<^verbatim>\<open>const key = `${novelTitle}-${chapterIndex}`\<close>\<close>

definition chapterKey :: "jsstring \<Rightarrow> nat \<Rightarrow> jsstring" where
  "chapterKey novelTitle chapterIndex = novelTitle @ ascii ''-'' @ decimal chapterIndex"

text \<open>\<^verbatim>\<open>text.split('\n')\<close>: the empty string gives one empty line.\<close>

fun split_nl :: "jsstring \<Rightarrow> jsstring list" where
  "split_nl [] = [[]]"
| "split_nl (c # cs) =
     (if c = 0x0A then [] # split_nl cs
      else (case split_nl cs of [] \<Rightarrow> [[c]] | l # ls \<Rightarrow> (c # l) # ls))"

text \<open>\<^verbatim>\<open>lines.join('\n')\<close>\<close>

fun join_nl :: "jsstring list \<Rightarrow> jsstring" where
  "join_nl [] = []"
| "join_nl [l] = l"
| "join_nl (l # m # ls) = l @ [0x0A] @ join_nl (m # ls)"

text \<open>The white space class \<^verbatim>\<open>\s\<close> of ECMAScript regular expressions.\<close>

definition js_space :: "16 word \<Rightarrow> bool" where
  "js_space c = (c \<in> {0x09, 0x0A, 0x0B, 0x0C, 0x0D, 0x20, 0xA0, 0x1680, 0x2028, 0x2029,
                       0x202F, 0x205F, 0x3000, 0xFEFF}
                 \<or> (0x2000 \<le> c \<and> c \<le> 0x200A))"

text \<open>\<^verbatim>\<open>title.replace(/^#+\s*/, '')\<close>: a leading run of \<^verbatim>\<open>#\<close> and the white space after it.\<close>

definition strip_heading :: "jsstring \<Rightarrow> jsstring" where
  "strip_heading t =
     (case t of [] \<Rightarrow> []
      | c # cs \<Rightarrow> if c = 0x23 then dropWhile js_space (dropWhile (\<lambda>x. x = 0x23) cs) else t)"

text \<open>
  Lines 165 to 175 of the service: the chapter built from \<^verbatim>\<open>response.text\<close>, which may
  be undefined.
  \<^verbatim>\<open>
  const text = response.text || '';
  const lines = text.split('\n');
  const title = lines[0] || `<U+7B2C> ${chapterIndex + 1} <U+7AE0>`;
  const content = lines.slice(1).join('\n');
  const chapter = { id: key, title: title.replace(/^#+\s*/, ''), content, number: chapterIndex + 1 };
  \<close>
\<close>

definition buildChapter :: "jsstring \<Rightarrow> nat \<Rightarrow> jsstring option \<Rightarrow> Chapter" where
  "buildChapter key chapterIndex response_text =
     (let text = (case response_text of None \<Rightarrow> [] | Some t \<Rightarrow> t);
          lines = split_nl text;
          title = (case lines of [] \<Rightarrow> [] | l # _ \<Rightarrow> l);
          title = (if title = [] then [0x7B2C, 0x20] @ decimal (chapterIndex + 1) @ [0x20, 0x7AE0]
                   else title);
          content = join_nl (drop 1 lines)
      in \<lparr>ch_id = key, ch_title = strip_heading title, ch_content = content,
          ch_number = chapterIndex + 1\<rparr>)"

text \<open>\<^verbatim>\<open>{ id: 'error', title: 'Error', content: 'API Key missing or error.', number: 1 }\<close>\<close>

definition missingKeyChapter :: Chapter where
  "missingKeyChapter =
     \<lparr>ch_id = ascii ''error'', ch_title = ascii ''Error'',
      ch_content = ascii ''API Key missing or error.'', ch_number = 1\<rparr>"

text \<open>
  The chapter that the first caller of a failed request receives (lines 193 to 198); its
  title and content are the Chinese for "generation failed" and "cannot generate the
  chapter, check the network and retry".
\<close>

definition failedChapter :: "nat \<Rightarrow> Chapter" where
  "failedChapter chapterIndex =
     \<lparr>ch_id = ascii ''error'',
      ch_title = [0x751F, 0x6210, 0x5931, 0x8D25],
      ch_content = [0x65E0, 0x6CD5, 0x751F, 0x6210, 0x7AE0, 0x8282, 0x5185, 0x5BB9, 0xFF0C,
                    0x8BF7, 0x68C0, 0x67E5, 0x7F51, 0x7EDC, 0x540E, 0x91CD, 0x8BD5, 0x3002],
      ch_number = chapterIndex + 1\<rparr>"

section \<open>The chapter service\<close>

text \<open>
  The module state of the service: the API key, the two maps, the preload queue and the
  worker counter. A promise is a number; \<open>pending\<close> holds the requests whose adapter call
  has not settled, \<open>settled\<close> the outcomes of those that have, \<open>adapterLog\<close> every call
  of \<^verbatim>\<open>ai.models.generateContent\<close> for a chapter, and \<open>running\<close> what each started
  preload task awaits.
\<close>

type_synonym error = jsstring

datatype origin = Foreground | Preload

record request =
  req_title :: jsstring
  req_index :: nat
  req_key :: jsstring
  req_origin :: origin

datatype outcome = Resolved Chapter | Rejected error

text \<open>
  What a call of \<^verbatim>\<open>generateChapterContent\<close> hands to its caller: a value at once, the
  shared request promise itself (line 149), or the request promise awaited under the
  \<^verbatim>\<open>try/catch\<close> of lines 190 to 199.
\<close>

datatype handle = Immediate Chapter | Joined nat | Guarded nat nat

datatype response = Text "jsstring option" | Throws error

record service =
  apiKey :: jsstring
  chapterCache :: "jsstring \<rightharpoonup> Chapter"
  activeRequests :: "jsstring \<rightharpoonup> nat"
  preloadQueue :: "(jsstring \<times> nat) list"
  activeWorkers :: int
  pending :: "nat \<rightharpoonup> request"
  settled :: "nat \<rightharpoonup> outcome"
  nextPromise :: nat
  adapterLog :: "(jsstring \<times> nat) list"
  running :: "handle list"

definition CONCURRENCY_LIMIT :: int where
  "CONCURRENCY_LIMIT = 3"

definition init :: "jsstring \<Rightarrow> service" where
  "init key =
     \<lparr>apiKey = key, chapterCache = Map.empty, activeRequests = Map.empty, preloadQueue = [],
      activeWorkers = 0, pending = Map.empty, settled = Map.empty, nextPromise = 0,
      adapterLog = [], running = []\<rparr>"

text \<open>
  \<^verbatim>\<open>generateChapterContent\<close> up to its first suspension. The adapter is asynchronous:
  calling it logs the call and leaves a pending request, which \<open>settle\<close> completes.
  The argument \<open>og\<close> only records who asked.
\<close>

definition generateChapterContent ::
  "origin \<Rightarrow> jsstring \<Rightarrow> nat \<Rightarrow> service \<Rightarrow> handle \<times> service" where
  "generateChapterContent og novelTitle chapterIndex s =
     (if apiKey s = [] then (Immediate missingKeyChapter, s)
      else
        let key = chapterKey novelTitle chapterIndex in
        (case chapterCache s key of
           Some c \<Rightarrow> (Immediate c, s)
         | None \<Rightarrow>
            (case activeRequests s key of
               Some p \<Rightarrow> (Joined p, s)
             | None \<Rightarrow>
                 let p = nextPromise s in
                 (Guarded p chapterIndex,
                  s\<lparr>adapterLog := adapterLog s @ [(novelTitle, chapterIndex)],
                    pending := (pending s)(p \<mapsto>
                       \<lparr>req_title = novelTitle, req_index = chapterIndex, req_key = key,
                        req_origin = og\<rparr>),
                    nextPromise := p + 1,
                    activeRequests := (activeRequests s)(key \<mapsto> p)\<rparr>))))"

text \<open>
  The body of the request after the adapter call settles (lines 165 to 185): the
  \<^verbatim>\<open>try\<close> block writes the cache, the \<^verbatim>\<open>catch\<close> block rethrows, and the
  \<^verbatim>\<open>finally\<close> block, which runs last, deletes the key from \<^verbatim>\<open>activeRequests\<close>.
\<close>

definition requestTry :: "request \<Rightarrow> response \<Rightarrow> service \<Rightarrow> outcome \<times> service" where
  "requestTry r resp s =
     (case resp of
        Text t \<Rightarrow>
          (let chapter = buildChapter (req_key r) (req_index r) t
           in (Resolved chapter, s\<lparr>chapterCache := (chapterCache s)(req_key r \<mapsto> chapter)\<rparr>))
      | Throws e \<Rightarrow> (Rejected e, s))"

definition requestFinally :: "request \<Rightarrow> service \<Rightarrow> service" where
  "requestFinally r s = s\<lparr>activeRequests := (activeRequests s)(req_key r := None)\<rparr>"

definition settle :: "nat \<Rightarrow> response \<Rightarrow> service \<Rightarrow> service" where
  "settle p resp s =
     (case pending s p of
        None \<Rightarrow> s
      | Some r \<Rightarrow>
          (let (out, s1) = requestTry r resp s;
               s2 = requestFinally r s1
           in s2\<lparr>pending := (pending s2)(p := None), settled := (settled s2)(p \<mapsto> out)\<rparr>))"

text \<open>What the holder of a handle has received so far; \<open>None\<close> while it still waits.\<close>

fun observe :: "service \<Rightarrow> handle \<Rightarrow> outcome option" where
  "observe s (Immediate c) = Some (Resolved c)"
| "observe s (Joined p) = settled s p"
| "observe s (Guarded p chapterIndex) =
     (case settled s p of
        None \<Rightarrow> None
      | Some (Resolved c) \<Rightarrow> Some (Resolved c)
      | Some (Rejected e) \<Rightarrow> Some (Resolved (failedChapter chapterIndex)))"

text \<open>
  \<^verbatim>\<open>processQueue\<close>: at most one task is taken per call. A task is the pair its closure
  holds; starting it runs \<^verbatim>\<open>generateChapterContent\<close> to its first suspension.
\<close>

definition processQueue :: "service \<Rightarrow> service" where
  "processQueue s =
     (if preloadQueue s = [] \<or> activeWorkers s \<ge> CONCURRENCY_LIMIT then s
      else
        (case preloadQueue s of
           [] \<Rightarrow> s
         | task # rest \<Rightarrow>
             (let s1 = s\<lparr>preloadQueue := rest, activeWorkers := activeWorkers s + 1\<rparr>;
                  (h, s2) = generateChapterContent Preload (fst task) (snd task) s1
              in s2\<lparr>running := running s2 @ [h]\<rparr>)))"

text \<open>
  The \<^verbatim>\<open>finally\<close> callback of a started task: it runs once what the task awaits has
  settled (the task swallows a rejection), frees the worker and looks at the queue again.
\<close>

definition workerDone :: "nat \<Rightarrow> service \<Rightarrow> service" where
  "workerDone j s =
     (if j < length (running s) \<and> observe s (running s ! j) \<noteq> None
      then processQueue
             (s\<lparr>running := take j (running s) @ drop (Suc j) (running s),
               activeWorkers := activeWorkers s - 1\<rparr>)
      else s)"

definition preloadChapter :: "jsstring \<Rightarrow> nat \<Rightarrow> service \<Rightarrow> service" where
  "preloadChapter novelTitle chapterIndex s =
     (let key = chapterKey novelTitle chapterIndex in
      if chapterCache s key \<noteq> None \<or> activeRequests s key \<noteq> None then s
      else processQueue (s\<lparr>preloadQueue := preloadQueue s @ [(novelTitle, chapterIndex)]\<rparr>))"

text \<open>
  The service runs on one thread: between two suspensions nothing else runs. An event is
  one such uninterrupted piece of work.
\<close>

datatype event =
    Fetch jsstring nat
  | SchedulePreload jsstring nat
  | Settle nat response
  | WorkerDone nat

fun step :: "service \<Rightarrow> event \<Rightarrow> service" where
  "step s (Fetch novelTitle chapterIndex) =
     snd (generateChapterContent Foreground novelTitle chapterIndex s)"
| "step s (SchedulePreload novelTitle chapterIndex) = preloadChapter novelTitle chapterIndex s"
| "step s (Settle p resp) = settle p resp s"
| "step s (WorkerDone j) = workerDone j s"

definition run :: "service \<Rightarrow> event list \<Rightarrow> service" where
  "run s evs = foldl step s evs"

text \<open>
  \<open>fetchAll n\<close>: \<open>n\<close> foreground calls for the same chapter, one after the other with no
  settlement between them, and the handles they return in call order.
\<close>

fun fetchAll :: "nat \<Rightarrow> jsstring \<Rightarrow> nat \<Rightarrow> service \<Rightarrow> handle list \<times> service" where
  "fetchAll 0 novelTitle chapterIndex s = ([], s)"
| "fetchAll (Suc n) novelTitle chapterIndex s =
     (let (h, s1) = generateChapterContent Foreground novelTitle chapterIndex s;
          (hs, s2) = fetchAll n novelTitle chapterIndex s1
      in (h # hs, s2))"

text \<open>How often the adapter has been called for a key.\<close>

definition adapterCalls :: "jsstring \<Rightarrow> service \<Rightarrow> nat" where
  "adapterCalls k s = length (filter (\<lambda>c. chapterKey (fst c) (snd c) = k) (adapterLog s))"

text \<open>The pending adapter calls that a preload task started.\<close>

definition preloadCalls :: "service \<Rightarrow> nat" where
  "preloadCalls s =
     length (filter (\<lambda>p. case pending s p of None \<Rightarrow> False | Some r \<Rightarrow> req_origin r = Preload)
               [0 ..< nextPromise s])"

subsection \<open>Search and rankings\<close>

text \<open>
  \<^verbatim>\<open>searchNovels\<close> and \<^verbatim>\<open>getRankings\<close> share one body. What the adapter and
  \<^verbatim>\<open>JSON.parse\<close> deliver is either a failure (the call rejects, the text is not JSON, or
  the JSON is not an array), no text (parsed as \<^verbatim>\<open>'[]'\<close>), or the items; each item gets
  \<^verbatim>\<open>coverUrl: PLACEHOLDER_IMGS[index % PLACEHOLDER_IMGS.length]\<close>.
\<close>

datatype 'a listing = ListingFails | ListingNoText | ListingItems "'a list"

definition PLACEHOLDER_IMGS :: "jsstring list" where
  "PLACEHOLDER_IMGS =
     [ascii ''https://picsum.photos/300/400?random=1'',
      ascii ''https://picsum.photos/300/400?random=2'',
      ascii ''https://picsum.photos/300/400?random=3'',
      ascii ''https://picsum.photos/300/400?random=4'',
      ascii ''https://picsum.photos/300/400?random=5'']"

definition withCovers :: "'a listing \<Rightarrow> ('a \<times> jsstring) list" where
  "withCovers resp =
     (case resp of
        ListingFails \<Rightarrow> []
      | ListingNoText \<Rightarrow> []
      | ListingItems data \<Rightarrow>
          map (\<lambda>(index, item). (item, PLACEHOLDER_IMGS ! (index mod length PLACEHOLDER_IMGS)))
            (enumerate 0 data))"

definition searchNovels :: "service \<Rightarrow> jsstring \<Rightarrow> 'a listing \<Rightarrow> ('a \<times> jsstring) list" where
  "searchNovels s query resp = (if apiKey s = [] then [] else withCovers resp)"

datatype category = Urban | Historical

definition getRankings :: "service \<Rightarrow> category \<Rightarrow> 'a listing \<Rightarrow> ('a \<times> jsstring) list" where
  "getRankings s cat resp = (if apiKey s = [] then [] else withCovers resp)"

section \<open>The reader\<close>

text \<open>
  The state of the \<^verbatim>\<open>Reader\<close> component that the loading effect uses. The hook
  \<^verbatim>\<open>chapter\<close> is \<open>chapter_st\<close> here.
\<close>

record reader =
  chapterIndex :: nat
  chapter_st :: "Chapter option"
  loading :: bool
  currentSourceName :: jsstring
  retryCount :: nat
  isAutoSwitching :: bool

text \<open>
  \<^verbatim>\<open>sourceName || '<U+667A><U+80FD><U+4F18><U+9009><U+6E90>'\<close>: the default source name when
  the prop is missing or empty.
\<close>

definition defaultSourceName :: "jsstring option \<Rightarrow> jsstring" where
  "defaultSourceName sourceName =
     (case sourceName of
        None \<Rightarrow> [0x667A, 0x80FD, 0x4F18, 0x9009, 0x6E90]
      | Some n \<Rightarrow> if n = [] then [0x667A, 0x80FD, 0x4F18, 0x9009, 0x6E90] else n)"

definition mount :: "nat \<Rightarrow> jsstring option \<Rightarrow> reader" where
  "mount initialChapterIndex sourceName =
     \<lparr>chapterIndex = initialChapterIndex, chapter_st = None, loading = True,
      currentSourceName = defaultSourceName sourceName, retryCount = 0,
      isAutoSwitching = False\<rparr>"

text \<open>
  The label of line 105, \<^verbatim>\<open>`<U+5907><U+7528><U+7EBF><U+8DEF> ${retryCount + 1}`\<close>: the Chinese for
  "backup line", a space and the number.
\<close>

definition backupLabel :: "nat \<Rightarrow> jsstring" where
  "backupLabel n = [0x5907, 0x7528, 0x7EBF, 0x8DEF, 0x20] @ decimal n"

text \<open>
  Line 92: what \<^verbatim>\<open>loadChapter\<close> accepts. A rejected promise and a chapter that fails
  the check both reach the \<^verbatim>\<open>catch\<close> block.
\<close>

definition accepted :: "outcome \<Rightarrow> Chapter option" where
  "accepted out =
     (case out of
        Rejected e \<Rightarrow> None
      | Resolved data \<Rightarrow>
          if ch_id data = ascii ''error'' \<or> length (ch_content data) < 50 then None
          else Some data)"

text \<open>
  Lines 96 to 120 of \<^verbatim>\<open>loadChapter\<close>, run when the awaited call has settled. The
  closure \<open>c\<close> holds the state of the render that started the effect: \<^verbatim>\<open>retryCount\<close>,
  \<^verbatim>\<open>isAutoSwitching\<close> and \<^verbatim>\<open>chapter\<close> are read from it, and only
  \<^verbatim>\<open>setRetryCount(prev => prev + 1)\<close> reads the current state \<open>r\<close>.
\<close>

definition loadChapter_settled :: "reader \<Rightarrow> outcome \<Rightarrow> reader \<Rightarrow> reader" where
  "loadChapter_settled c out r =
     (let r1 =
        (case accepted out of
           Some data \<Rightarrow> r\<lparr>chapter_st := Some data, isAutoSwitching := False\<rparr>
         | None \<Rightarrow>
             if retryCount c < 3
             then r\<lparr>isAutoSwitching := True, retryCount := retryCount r + 1,
                    currentSourceName := backupLabel (retryCount c + 1)\<rparr>
             else r\<lparr>chapter_st := None, isAutoSwitching := False\<rparr>)
      in if retryCount c \<ge> 3 \<or> (\<not> isAutoSwitching c \<and> chapter_st c \<noteq> None)
         then r1\<lparr>loading := False\<rparr> else r1)"

text \<open>Lines 84 to 86: the wait in milliseconds before the call of an attempt.\<close>

definition attemptDelay :: "reader \<Rightarrow> nat" where
  "attemptDelay c = (if retryCount c > 0 then 1500 else 0)"

text \<open>
  The component as a whole. State updates made in one piece of work are applied together
  (the batching of React 18), and after each render the effects whose dependencies changed
  run in source order. A call of \<^verbatim>\<open>loadChapter\<close> stays in progress across its awaits and
  keeps the state of the render that started it; several can be in progress at once.
  \<open>runs\<close> holds them, each with its closure and whether it still waits for the timer of
  lines 84 to 86 or for \<^verbatim>\<open>generateChapterContent\<close>. \<open>calls\<close> logs every call of
  \<^verbatim>\<open>generateChapterContent\<close> that \<^verbatim>\<open>loadChapter\<close> makes, with the wait before it, and
  \<open>preloads\<close> every call of \<^verbatim>\<open>preloadChapter\<close>. The props do not change while the reader
  is shown.
\<close>

datatype phase = Waiting | Fetching

record effectRun =
  closure :: reader
  phase :: phase

record readerSys =
  prop_title :: jsstring
  prop_sourceName :: "jsstring option"
  live :: reader
  runs :: "effectRun list"
  calls :: "(nat \<times> jsstring \<times> nat) list"
  preloads :: "(jsstring \<times> nat) list"

text \<open>Lines 67 to 71: the effect that depends on \<^verbatim>\<open>[chapterIndex, sourceName]\<close>.\<close>

definition resetRetry :: "jsstring option \<Rightarrow> reader \<Rightarrow> reader" where
  "resetRetry src r =
     r\<lparr>retryCount := 0, isAutoSwitching := False, currentSourceName := defaultSourceName src\<rparr>"

text \<open>
  Lines 73 to 131, the effect that depends on \<^verbatim>\<open>[novel.title, chapterIndex, retryCount]\<close>,
  run on a render with state \<open>c\<close>: \<^verbatim>\<open>loadChapter()\<close> sets \<^verbatim>\<open>loading\<close> and either starts
  the timer or calls \<^verbatim>\<open>generateChapterContent\<close> at once, and when the render has
  \<^verbatim>\<open>retryCount === 0\<close> the next five chapters are preloaded.
\<close>

definition startRun :: "reader \<Rightarrow> readerSys \<Rightarrow> readerSys" where
  "startRun c sys =
     (let sys1 = sys\<lparr>live := (live sys)\<lparr>loading := True\<rparr>\<rparr>;
          sys2 =
            (if retryCount c > 0
             then sys1\<lparr>runs := runs sys1 @ [\<lparr>closure = c, phase = Waiting\<rparr>]\<rparr>
             else sys1\<lparr>runs := runs sys1 @ [\<lparr>closure = c, phase = Fetching\<rparr>],
                       calls := calls sys1 @ [(attemptDelay c, prop_title sys1, chapterIndex c)]\<rparr>)
      in if retryCount c = 0
         then sys2\<lparr>preloads := preloads sys2 @
                 map (\<lambda>i. (prop_title sys2, chapterIndex c + i)) [1 ..< 6]\<rparr>
         else sys2)"

text \<open>
  The effects after a render, where \<open>prev\<close> is the state of the render before. When the
  chapter has changed both effects run on the new render: the reset is queued and
  \<^verbatim>\<open>loadChapter\<close> starts with the counter not yet reset in its closure. If the reset then
  changes \<^verbatim>\<open>retryCount\<close>, the next render runs the loading effect once more.
\<close>

definition runEffects :: "reader \<Rightarrow> readerSys \<Rightarrow> readerSys" where
  "runEffects prev sys =
     (let cur = live sys in
      if chapterIndex cur \<noteq> chapterIndex prev
      then (let sys1 = startRun cur (sys\<lparr>live := resetRetry (prop_sourceName sys) cur\<rparr>)
            in if retryCount (live sys1) \<noteq> retryCount cur then startRun (live sys1) sys1
               else sys1)
      else if retryCount cur \<noteq> retryCount prev then startRun cur sys
      else sys)"

text \<open>Mounting: the first render and both effects.\<close>

definition mountReader :: "jsstring \<Rightarrow> jsstring option \<Rightarrow> nat \<Rightarrow> readerSys" where
  "mountReader t src initialChapterIndex =
     startRun (mount initialChapterIndex src)
       \<lparr>prop_title = t, prop_sourceName = src,
        live = resetRetry src (mount initialChapterIndex src),
        runs = [], calls = [], preloads = []\<rparr>"

text \<open>The timer of a waiting run fires: the run calls \<^verbatim>\<open>generateChapterContent\<close> (line 88).\<close>

definition timerFired :: "nat \<Rightarrow> readerSys \<Rightarrow> readerSys" where
  "timerFired j sys =
     (if j < length (runs sys) \<and> phase (runs sys ! j) = Waiting
      then sys\<lparr>runs := (runs sys)[j := (runs sys ! j)\<lparr>phase := Fetching\<rparr>],
               calls := calls sys @
                 [(attemptDelay (closure (runs sys ! j)), prop_title sys,
                   chapterIndex (closure (runs sys ! j)))]\<rparr>
      else sys)"

text \<open>
  The call of a run settles: the rest of \<^verbatim>\<open>loadChapter\<close> runs with the closure of that
  run on the current state, then the component renders and its effects run.
\<close>

definition callSettled :: "nat \<Rightarrow> outcome \<Rightarrow> readerSys \<Rightarrow> readerSys" where
  "callSettled j out sys =
     (if j < length (runs sys) \<and> phase (runs sys ! j) = Fetching
      then runEffects (live sys)
             (sys\<lparr>runs := take j (runs sys) @ drop (Suc j) (runs sys),
                  live := loadChapter_settled (closure (runs sys ! j)) out (live sys)\<rparr>)
      else sys)"

text \<open>
  Lines 133 and 134: \<^verbatim>\<open>setChapterIndex(prev => prev + 1)\<close> and
  \<^verbatim>\<open>setChapterIndex(prev => Math.max(0, prev - 1))\<close>.
\<close>

definition nextChapter :: "readerSys \<Rightarrow> readerSys" where
  "nextChapter sys =
     runEffects (live sys) (sys\<lparr>live := (live sys)\<lparr>chapterIndex := chapterIndex (live sys) + 1\<rparr>\<rparr>)"

definition prevChapter :: "readerSys \<Rightarrow> readerSys" where
  "prevChapter sys =
     runEffects (live sys)
       (sys\<lparr>live := (live sys)\<lparr>chapterIndex :=
          (if chapterIndex (live sys) = 0 then 0 else chapterIndex (live sys) - 1)\<rparr>\<rparr>)"

datatype readerEvent = TimerFired nat | CallSettled nat outcome | NextChapter | PrevChapter

fun stepReader :: "readerSys \<Rightarrow> readerEvent \<Rightarrow> readerSys" where
  "stepReader sys (TimerFired j) = timerFired j sys"
| "stepReader sys (CallSettled j out) = callSettled j out sys"
| "stepReader sys NextChapter = nextChapter sys"
| "stepReader sys PrevChapter = prevChapter sys"

definition runReader :: "readerSys \<Rightarrow> readerEvent list \<Rightarrow> readerSys" where
  "runReader sys evs = foldl stepReader sys evs"

text \<open>Events that keep the chapter, and among them those in which no call succeeds.\<close>

fun sessionEvent :: "readerEvent \<Rightarrow> bool" where
  "sessionEvent (TimerFired j) = True"
| "sessionEvent (CallSettled j out) = True"
| "sessionEvent NextChapter = False"
| "sessionEvent PrevChapter = False"

fun failingEvent :: "readerEvent \<Rightarrow> bool" where
  "failingEvent (TimerFired j) = True"
| "failingEvent (CallSettled j out) = (accepted out = None)"
| "failingEvent NextChapter = False"
| "failingEvent PrevChapter = False"

text \<open>Lines 278 to 316: the failure panel is shown when nothing loads and no chapter is held.\<close>

definition finalFailure :: "reader \<Rightarrow> bool" where
  "finalFailure r = (\<not> (loading r \<or> isAutoSwitching r) \<and> chapter_st r = None)"

text \<open>
  \<open>attempt k ph sys\<close>: one call of \<^verbatim>\<open>loadChapter\<close> is in progress, in phase \<open>ph\<close>, and
  both its closure and the current state have the retry count \<open>k\<close> and the same chapter.
\<close>

definition attempt :: "nat \<Rightarrow> phase \<Rightarrow> readerSys \<Rightarrow> bool" where
  "attempt k ph sys =
     (case runs sys of
        [r] \<Rightarrow> phase r = ph \<and> retryCount (closure r) = k \<and> retryCount (live sys) = k \<and>
               chapterIndex (closure r) = chapterIndex (live sys)
      | _ \<Rightarrow> False)"

text \<open>
  What holds during a session that keeps its chapter \<open>i\<close>, where \<open>cs0\<close> are the calls up to
  and with the first of the session: the later calls are retries after the wait, at most
  one call of \<^verbatim>\<open>loadChapter\<close> is in progress and it saw the current retry count, which is
  the number of retries made or about to be made. With \<open>failing\<close> set, a session with
  nothing in progress has made three retries and shows the failure panel.
\<close>

definition sessionInv ::
  "bool \<Rightarrow> (nat \<times> jsstring \<times> nat) list \<Rightarrow> nat \<Rightarrow> readerSys \<Rightarrow> bool" where
  "sessionInv failing cs0 i sys \<longleftrightarrow>
     (\<exists>n. calls sys = cs0 @ replicate n (1500, prop_title sys, i) \<and>
        (case runs sys of
           [] \<Rightarrow> n \<le> 3 \<and>
                (failing \<longrightarrow> n = 3 \<and> finalFailure (live sys) \<and> retryCount (live sys) = 3)
         | r # rs \<Rightarrow>
             rs = [] \<and> retryCount (closure r) = retryCount (live sys) \<and>
             chapterIndex (closure r) = i \<and> chapterIndex (live sys) = i \<and>
             retryCount (live sys) \<le> 3 \<and>
             retryCount (live sys) = n + (if phase r = Waiting then 1 else 0)))"

text \<open>
  An example state: five chapters scheduled for preloading on a fresh service with an API
  key. Three tasks run and two wait.
\<close>

definition saturated :: service where
  "saturated = run (init (ascii ''K''))
     [SchedulePreload (ascii ''A'') 1, SchedulePreload (ascii ''A'') 2,
      SchedulePreload (ascii ''A'') 3, SchedulePreload (ascii ''A'') 4,
      SchedulePreload (ascii ''A'') 5]"

section \<open>Invariants of the service\<close>

text \<open>
  The two maps and the promise store agree: an in-flight key names a pending request for
  that key and the other way round, a cached key is not in flight, promises are numbered
  below \<open>nextPromise\<close>, and without an API key nothing is cached or pending.
\<close>

definition maps_ok :: "service \<Rightarrow> bool" where
  "maps_ok s \<longleftrightarrow>
     (\<forall>k p. activeRequests s k = Some p \<longrightarrow> (\<exists>r. pending s p = Some r \<and> req_key r = k)) \<and>
     (\<forall>p r. pending s p = Some r \<longrightarrow> activeRequests s (req_key r) = Some p) \<and>
     (\<forall>k. chapterCache s k \<noteq> None \<longrightarrow> activeRequests s k = None) \<and>
     (\<forall>p. pending s p \<noteq> None \<longrightarrow> p < nextPromise s \<and> settled s p = None) \<and>
     (\<forall>p. settled s p \<noteq> None \<longrightarrow> p < nextPromise s) \<and>
     (apiKey s = [] \<longrightarrow> chapterCache s = Map.empty \<and> pending s = Map.empty)"

text \<open>
  The worker counter is the number of started tasks, it is at most the limit, and every
  pending request that a preload task started is awaited by a started task.
\<close>

definition workers_ok :: "service \<Rightarrow> bool" where
  "workers_ok s \<longleftrightarrow>
     activeWorkers s = int (length (running s)) \<and> activeWorkers s \<le> CONCURRENCY_LIMIT \<and>
     (\<forall>p r. pending s p = Some r \<longrightarrow> req_origin r = Preload \<longrightarrow>
        Guarded p (req_index r) \<in> set (running s))"

text \<open>Tasks wait in the queue only while every worker is busy.\<close>

definition queue_ok :: "service \<Rightarrow> bool" where
  "queue_ok s \<longleftrightarrow> preloadQueue s = [] \<or> activeWorkers s \<ge> CONCURRENCY_LIMIT"

definition consistent :: "service \<Rightarrow> bool" where
  "consistent s \<longleftrightarrow> maps_ok s \<and> workers_ok s \<and> queue_ok s"

section \<open>Basic facts about the service\<close>

lemma gcc_nokey: "apiKey s = [] \<Longrightarrow> generateChapterContent og t i s = (Immediate missingKeyChapter, s)"
  by (simp add: generateChapterContent_def)

lemma gcc_cached:
  "apiKey s \<noteq> [] \<Longrightarrow> chapterCache s (chapterKey t i) = Some c \<Longrightarrow>
   generateChapterContent og t i s = (Immediate c, s)"
  by (simp add: generateChapterContent_def)

lemma gcc_joined:
  "apiKey s \<noteq> [] \<Longrightarrow> chapterCache s (chapterKey t i) = None \<Longrightarrow>
   activeRequests s (chapterKey t i) = Some p \<Longrightarrow>
   generateChapterContent og t i s = (Joined p, s)"
  by (simp add: generateChapterContent_def)

lemma gcc_fresh:
  "apiKey s \<noteq> [] \<Longrightarrow> chapterCache s (chapterKey t i) = None \<Longrightarrow>
   activeRequests s (chapterKey t i) = None \<Longrightarrow>
   generateChapterContent og t i s =
     (Guarded (nextPromise s) i,
      s\<lparr>adapterLog := adapterLog s @ [(t, i)],
        pending := (pending s)(nextPromise s \<mapsto>
           \<lparr>req_title = t, req_index = i, req_key = chapterKey t i, req_origin = og\<rparr>),
        nextPromise := nextPromise s + 1,
        activeRequests := (activeRequests s)(chapterKey t i \<mapsto> nextPromise s)\<rparr>)"
  by (simp add: generateChapterContent_def Let_def)

lemma fetchAll_joined:
  "apiKey s \<noteq> [] \<Longrightarrow> chapterCache s (chapterKey t i) = None \<Longrightarrow>
   activeRequests s (chapterKey t i) = Some p \<Longrightarrow>
   fetchAll n t i s = (replicate n (Joined p), s)"
  by (induction n) (simp_all add: gcc_joined)

lemma fetchAll_fresh:
  assumes "apiKey s \<noteq> []" "chapterCache s (chapterKey t i) = None"
    "activeRequests s (chapterKey t i) = None"
  shows "fetchAll (Suc n) t i s =
     (Guarded (nextPromise s) i # replicate n (Joined (nextPromise s)),
      snd (generateChapterContent Foreground t i s))"
proof -
  define s1 where "s1 = snd (generateChapterContent Foreground t i s)"
  have g: "generateChapterContent Foreground t i s = (Guarded (nextPromise s) i, s1)"
    unfolding s1_def using assms by (simp add: gcc_fresh)
  have "apiKey s1 \<noteq> []" "chapterCache s1 (chapterKey t i) = None"
    "activeRequests s1 (chapterKey t i) = Some (nextPromise s)"
    unfolding s1_def using assms by (simp_all add: gcc_fresh)
  then have "fetchAll n t i s1 = (replicate n (Joined (nextPromise s)), s1)"
    by (rule fetchAll_joined)
  with g show ?thesis by (simp add: s1_def [symmetric])
qed

lemma settle_Text:
  "pending s p = Some r \<Longrightarrow>
   settle p (Text txt) s =
     s\<lparr>chapterCache := (chapterCache s)(req_key r \<mapsto> buildChapter (req_key r) (req_index r) txt),
       activeRequests := (activeRequests s)(req_key r := None),
       pending := (pending s)(p := None),
       settled := (settled s)(p \<mapsto> Resolved (buildChapter (req_key r) (req_index r) txt))\<rparr>"
  by (simp add: settle_def requestTry_def requestFinally_def Let_def)

lemma settle_Throws:
  "pending s p = Some r \<Longrightarrow>
   settle p (Throws e) s =
     s\<lparr>activeRequests := (activeRequests s)(req_key r := None),
       pending := (pending s)(p := None),
       settled := (settled s)(p \<mapsto> Rejected e)\<rparr>"
  by (simp add: settle_def requestTry_def requestFinally_def Let_def)

lemma settle_none: "pending s p = None \<Longrightarrow> settle p resp s = s"
  by (simp add: settle_def)


section \<open>The invariants hold in every reachable state\<close>

lemma maps_ok_init: "maps_ok (init key)"
  by (simp add: maps_ok_def init_def)

lemma maps_ok_fields:
  "chapterCache s' = chapterCache s \<Longrightarrow> activeRequests s' = activeRequests s \<Longrightarrow>
   pending s' = pending s \<Longrightarrow> settled s' = settled s \<Longrightarrow> nextPromise s' = nextPromise s \<Longrightarrow>
   apiKey s' = apiKey s \<Longrightarrow> maps_ok s' = maps_ok s"
  by (simp add: maps_ok_def)

lemma maps_ok_gcc:
  assumes "maps_ok s"
  shows "maps_ok (snd (generateChapterContent og t i s))"
proof (cases "apiKey s = []")
  case True
  then show ?thesis using assms by (simp add: gcc_nokey)
next
  case key: False
  show ?thesis
  proof (cases "chapterCache s (chapterKey t i)")
    case (Some c)
    then show ?thesis using assms key by (simp add: gcc_cached)
  next
    case cache: None
    show ?thesis
    proof (cases "activeRequests s (chapterKey t i)")
      case (Some p)
      then show ?thesis using assms key cache by (simp add: gcc_joined)
    next
      case None
      have I1: "\<And>k p. activeRequests s k = Some p \<Longrightarrow> \<exists>r. pending s p = Some r \<and> req_key r = k"
        and I2: "\<And>p r. pending s p = Some r \<Longrightarrow> activeRequests s (req_key r) = Some p"
        and I3: "\<And>k. chapterCache s k \<noteq> None \<Longrightarrow> activeRequests s k = None"
        and I4: "\<And>p. pending s p \<noteq> None \<Longrightarrow> p < nextPromise s \<and> settled s p = None"
        and I5: "\<And>p. settled s p \<noteq> None \<Longrightarrow> p < nextPromise s"
        using assms unfolding maps_ok_def by blast+
      have fresh: "pending s (nextPromise s) = None" "settled s (nextPromise s) = None"
        using I4 I5 by (meson less_irrefl)+
      have nokey: "\<And>p r. pending s p = Some r \<Longrightarrow> req_key r \<noteq> chapterKey t i"
        using I2 None by force
      have noact: "\<And>k. activeRequests s k \<noteq> Some (nextPromise s)"
        using I1 fresh by force
      show ?thesis
        unfolding gcc_fresh [OF key cache None] snd_conv maps_ok_def
        apply (simp add: key)
        apply (intro conjI allI impI)
                 apply (use I1 I2 I3 I4 I5 fresh nokey noact cache in \<open>auto simp: less_Suc_eq\<close>)
        done
    qed
  qed
qed

lemma maps_ok_settled_fields:
  assumes ok: "maps_ok s" and pend: "pending s p = Some r"
    and a': "activeRequests s' = (activeRequests s)(req_key r := None)"
    and p': "pending s' = (pending s)(p := None)"
    and st': "settled s' = (settled s)(p \<mapsto> out)"
    and n': "nextPromise s' = nextPromise s"
    and k': "apiKey s' = apiKey s"
    and c': "chapterCache s' = chapterCache s \<or> chapterCache s' = (chapterCache s)(req_key r \<mapsto> ch)"
  shows "maps_ok s'"
proof -
  have I1: "\<And>k p. activeRequests s k = Some p \<Longrightarrow> \<exists>r. pending s p = Some r \<and> req_key r = k"
    and I2: "\<And>p r. pending s p = Some r \<Longrightarrow> activeRequests s (req_key r) = Some p"
    and I3: "\<And>k. chapterCache s k \<noteq> None \<Longrightarrow> activeRequests s k = None"
    and I4: "\<And>p. pending s p \<noteq> None \<Longrightarrow> p < nextPromise s \<and> settled s p = None"
    and I5: "\<And>p. settled s p \<noteq> None \<Longrightarrow> p < nextPromise s"
    and I6: "apiKey s \<noteq> []"
    using ok pend unfolding maps_ok_def by (blast, blast, blast, blast, blast, auto)
  have act: "activeRequests s (req_key r) = Some p"
    using I2 pend by blast
  have lt: "p < nextPromise s"
    using I4 pend by auto
  have J1: "\<exists>r'. pending s' q = Some r' \<and> req_key r' = k" if "activeRequests s' k = Some q" for k q
  proof -
    from that have k: "k \<noteq> req_key r" and q: "activeRequests s k = Some q"
      unfolding a' by (auto split: if_splits)
    from I1 [OF q] obtain r' where r': "pending s q = Some r'" "req_key r' = k" by blast
    with k pend have "q \<noteq> p" by auto
    with r' show ?thesis unfolding p' by simp
  qed
  have J2: "activeRequests s' (req_key r') = Some q" if "pending s' q = Some r'" for q r'
  proof -
    from that have q: "q \<noteq> p" and r': "pending s q = Some r'"
      unfolding p' by (auto split: if_splits)
    from I2 [OF r'] have "activeRequests s (req_key r') = Some q" .
    with act q have "req_key r' \<noteq> req_key r" by auto
    with \<open>activeRequests s (req_key r') = Some q\<close> show ?thesis unfolding a' by simp
  qed
  have J3: "activeRequests s' k = None" if "chapterCache s' k \<noteq> None" for k
  proof (cases "k = req_key r")
    case True
    then show ?thesis unfolding a' by simp
  next
    case False
    with that c' have "chapterCache s k \<noteq> None" by auto
    from I3 [OF this] show ?thesis unfolding a' by simp
  qed
  have J4: "q < nextPromise s' \<and> settled s' q = None" if "pending s' q \<noteq> None" for q
  proof -
    from that have q: "q \<noteq> p" and "pending s q \<noteq> None"
      unfolding p' by (auto split: if_splits)
    from I4 [OF this(2)] q show ?thesis unfolding n' st' by simp
  qed
  have J5: "q < nextPromise s'" if "settled s' q \<noteq> None" for q
  proof (cases "q = p")
    case True
    then show ?thesis using lt n' by simp
  next
    case False
    with that have "settled s q \<noteq> None" unfolding st' by simp
    from I5 [OF this] show ?thesis using n' by simp
  qed
  show ?thesis
    unfolding maps_ok_def k'
    by (intro conjI allI impI) (simp_all add: J1 J2 J3 J4 J5 I6)
qed

lemma maps_ok_settle:
  assumes "maps_ok s"
  shows "maps_ok (settle p resp s)"
proof (cases "pending s p")
  case None
  then show ?thesis using assms by (simp add: settle_none)
next
  case (Some r)
  show ?thesis
  proof (cases resp)
    case (Text tx)
    show ?thesis
      unfolding Text
      by (rule maps_ok_settled_fields [OF assms Some,
            where out = "Resolved (buildChapter (req_key r) (req_index r) tx)"
              and ch = "buildChapter (req_key r) (req_index r) tx"])
         (simp_all add: settle_Text [OF Some])
  next
    case (Throws e)
    show ?thesis
      unfolding Throws
      by (rule maps_ok_settled_fields [OF assms Some, where out = "Rejected e"])
         (simp_all add: settle_Throws [OF Some])
  qed
qed

lemma workers_ok_init: "workers_ok (init key)"
  by (simp add: workers_ok_def init_def CONCURRENCY_LIMIT_def)

lemma gcc_workers_fields:
  "running (snd (generateChapterContent og t i s)) = running s"
  "activeWorkers (snd (generateChapterContent og t i s)) = activeWorkers s"
  "preloadQueue (snd (generateChapterContent og t i s)) = preloadQueue s"
  "apiKey (snd (generateChapterContent og t i s)) = apiKey s"
  by (simp_all add: generateChapterContent_def Let_def split: option.splits)

lemma gcc_pending_cases:
  "pending (snd (generateChapterContent og t i s)) = pending s \<or>
   (fst (generateChapterContent og t i s) = Guarded (nextPromise s) i \<and>
    pending (snd (generateChapterContent og t i s)) =
      (pending s)(nextPromise s \<mapsto>
         \<lparr>req_title = t, req_index = i, req_key = chapterKey t i, req_origin = og\<rparr>))"
  by (simp add: generateChapterContent_def Let_def split: option.splits)

lemma workers_ok_fetch:
  assumes "workers_ok s"
  shows "workers_ok (snd (generateChapterContent Foreground t i s))"
proof -
  let ?s' = "snd (generateChapterContent Foreground t i s)"
  have W3: "\<And>p r. pending s p = Some r \<Longrightarrow> req_origin r = Preload \<Longrightarrow>
      Guarded p (req_index r) \<in> set (running s)"
    using assms unfolding workers_ok_def by blast
  have "Guarded p (req_index r) \<in> set (running s)"
    if "pending ?s' p = Some r" "req_origin r = Preload" for p r
    using gcc_pending_cases [of Foreground t i s] that W3
    by (auto split: if_splits)
  then show ?thesis
    using assms unfolding workers_ok_def gcc_workers_fields by blast
qed

lemma settle_workers_fields:
  "running (settle p resp s) = running s"
  "activeWorkers (settle p resp s) = activeWorkers s"
  "preloadQueue (settle p resp s) = preloadQueue s"
  "apiKey (settle p resp s) = apiKey s"
  by (simp_all add: settle_def requestTry_def requestFinally_def Let_def
        split: option.splits response.splits)

lemma settle_pending_le:
  "pending (settle p resp s) q = Some r \<Longrightarrow> pending s q = Some r"
  by (auto simp: settle_def requestTry_def requestFinally_def Let_def
        split: option.splits response.splits if_splits)

lemma workers_ok_settle:
  assumes "workers_ok s"
  shows "workers_ok (settle p resp s)"
  using assms unfolding workers_ok_def settle_workers_fields
  by (blast dest: settle_pending_le)

lemma processQueue_idle:
  "preloadQueue s = [] \<or> activeWorkers s \<ge> CONCURRENCY_LIMIT \<Longrightarrow> processQueue s = s"
  by (simp add: processQueue_def)

lemma processQueue_start:
  assumes "preloadQueue s = task # rest" "activeWorkers s < CONCURRENCY_LIMIT"
    and "g = generateChapterContent Preload (fst task) (snd task)
               (s\<lparr>preloadQueue := rest, activeWorkers := activeWorkers s + 1\<rparr>)"
  shows "processQueue s = (snd g)\<lparr>running := running (snd g) @ [fst g]\<rparr>"
  using assms by (simp add: processQueue_def Let_def split: prod.splits)

lemma workers_ok_processQueue:
  assumes "workers_ok s"
  shows "workers_ok (processQueue s)"
proof (cases "preloadQueue s = [] \<or> activeWorkers s \<ge> CONCURRENCY_LIMIT")
  case True
  then show ?thesis using assms by (simp add: processQueue_idle)
next
  case False
  then obtain task rest where q: "preloadQueue s = task # rest"
    by (cases "preloadQueue s") auto
  define s1 where "s1 = s\<lparr>preloadQueue := rest, activeWorkers := activeWorkers s + 1\<rparr>"
  define g where "g = generateChapterContent Preload (fst task) (snd task) s1"
  have W2: "activeWorkers s < CONCURRENCY_LIMIT"
    using False by simp
  have pq: "processQueue s = (snd g)\<lparr>running := running (snd g) @ [fst g]\<rparr>"
    using q W2 by (rule processQueue_start) (simp add: g_def s1_def)
  have W1: "activeWorkers s = int (length (running s))"
    using assms unfolding workers_ok_def by simp
  have W3: "\<And>p r. pending s p = Some r \<Longrightarrow> req_origin r = Preload \<Longrightarrow>
      Guarded p (req_index r) \<in> set (running s)"
    using assms unfolding workers_ok_def by blast
  have f: "running (snd g) = running s" "activeWorkers (snd g) = activeWorkers s + 1"
    unfolding g_def gcc_workers_fields by (simp_all add: s1_def)
  have "Guarded p (req_index r) \<in> set (running s @ [fst g])"
    if "pending (snd g) p = Some r" "req_origin r = Preload" for p r
    using gcc_pending_cases [of Preload "fst task" "snd task" s1] that W3
    unfolding g_def [symmetric] by (auto simp: s1_def split: if_splits)
  then show ?thesis
    unfolding pq workers_ok_def using W1 W2 f by simp
qed

lemma maps_ok_processQueue:
  assumes "maps_ok s"
  shows "maps_ok (processQueue s)"
proof (cases "preloadQueue s = [] \<or> activeWorkers s \<ge> CONCURRENCY_LIMIT")
  case True
  then show ?thesis using assms by (simp add: processQueue_idle)
next
  case False
  then obtain task rest where q: "preloadQueue s = task # rest"
    by (cases "preloadQueue s") auto
  define s1 where "s1 = s\<lparr>preloadQueue := rest, activeWorkers := activeWorkers s + 1\<rparr>"
  define g where "g = generateChapterContent Preload (fst task) (snd task) s1"
  have W2: "activeWorkers s < CONCURRENCY_LIMIT"
    using False by simp
  have pq: "processQueue s = (snd g)\<lparr>running := running (snd g) @ [fst g]\<rparr>"
    using q W2 by (rule processQueue_start) (simp add: g_def s1_def)
  have "maps_ok s1 = maps_ok s"
    by (rule maps_ok_fields) (simp_all add: s1_def)
  with assms have "maps_ok (snd g)"
    unfolding g_def by (simp add: maps_ok_gcc)
  moreover have "maps_ok ((snd g)\<lparr>running := running (snd g) @ [fst g]\<rparr>) = maps_ok (snd g)"
    by (rule maps_ok_fields) simp_all
  ultimately show ?thesis unfolding pq by simp
qed

lemma maps_ok_preloadChapter: "maps_ok s \<Longrightarrow> maps_ok (preloadChapter t i s)"
proof -
  assume ok: "maps_ok s"
  have "maps_ok (s\<lparr>preloadQueue := preloadQueue s @ [(t, i)]\<rparr>) = maps_ok s"
    by (rule maps_ok_fields) simp_all
  with ok show ?thesis
    by (simp add: preloadChapter_def Let_def maps_ok_processQueue)
qed

lemma workers_ok_preloadChapter: "workers_ok s \<Longrightarrow> workers_ok (preloadChapter t i s)"
proof -
  assume ok: "workers_ok s"
  have "workers_ok (s\<lparr>preloadQueue := preloadQueue s @ [(t, i)]\<rparr>)"
    using ok by (simp add: workers_ok_def)
  then show ?thesis
    using ok by (simp add: preloadChapter_def Let_def workers_ok_processQueue)
qed

lemma set_remove_nth:
  assumes "x \<in> set xs" "x \<noteq> xs ! j"
  shows "x \<in> set (take j xs @ drop (Suc j) xs)"
proof (cases "j < length xs")
  case True
  have "set xs = set (take j xs) \<union> set (drop j xs)"
    by (metis append_take_drop_id set_append)
  moreover have "drop j xs = xs ! j # drop (Suc j) xs"
    using True by (simp add: Cons_nth_drop_Suc)
  ultimately have "set xs = set (take j xs) \<union> insert (xs ! j) (set (drop (Suc j) xs))"
    by simp
  with assms show ?thesis by auto
next
  case False
  with assms show ?thesis by simp
qed

lemma maps_ok_workerDone: "maps_ok s \<Longrightarrow> maps_ok (workerDone j s)"
proof -
  assume ok: "maps_ok s"
  have "maps_ok (s\<lparr>running := x, activeWorkers := y\<rparr>) = maps_ok s" for x y
    by (rule maps_ok_fields) simp_all
  with ok show ?thesis
    by (simp add: workerDone_def maps_ok_processQueue)
qed

lemma workers_ok_workerDone:
  assumes "maps_ok s" "workers_ok s"
  shows "workers_ok (workerDone j s)"
proof (cases "j < length (running s) \<and> observe s (running s ! j) \<noteq> None")
  case False
  then have "workerDone j s = s" by (auto simp: workerDone_def)
  then show ?thesis using assms by simp
next
  case True
  define s1 where "s1 = s\<lparr>running := take j (running s) @ drop (Suc j) (running s),
               activeWorkers := activeWorkers s - 1\<rparr>"
  have wd: "workerDone j s = processQueue s1"
    using True by (simp add: workerDone_def s1_def)
  have W1: "activeWorkers s = int (length (running s))"
    and W2: "activeWorkers s \<le> CONCURRENCY_LIMIT"
    using assms unfolding workers_ok_def by simp_all
  have W3: "\<And>p r. pending s p = Some r \<Longrightarrow> req_origin r = Preload \<Longrightarrow>
      Guarded p (req_index r) \<in> set (running s)"
    using assms unfolding workers_ok_def by blast
  have I4: "\<And>p. pending s p \<noteq> None \<Longrightarrow> settled s p = None"
    using assms unfolding maps_ok_def by blast
  have "Guarded p (req_index r) \<in> set (running s1)"
    if "pending s p = Some r" "req_origin r = Preload" for p r
  proof -
    have "settled s p = None" using I4 that by simp
    then have "observe s (Guarded p (req_index r)) = None" by simp
    with True have "Guarded p (req_index r) \<noteq> running s ! j" by metis
    with W3 [OF that]
    have "Guarded p (req_index r) \<in> set (take j (running s) @ drop (Suc j) (running s))"
      by (rule set_remove_nth)
    then show ?thesis
      unfolding s1_def by simp
  qed
  moreover have "pending s1 = pending s" "activeWorkers s1 = int (length (running s1))"
    "activeWorkers s1 \<le> CONCURRENCY_LIMIT"
    using W1 W2 True by (simp_all add: s1_def)
  ultimately have "workers_ok s1"
    unfolding workers_ok_def by simp
  then show ?thesis unfolding wd by (rule workers_ok_processQueue)
qed

lemma queue_ok_processQueue:
  assumes "length (preloadQueue s) \<le> 1 \<or> activeWorkers s \<ge> 2"
  shows "queue_ok (processQueue s)"
proof (cases "preloadQueue s = [] \<or> activeWorkers s \<ge> CONCURRENCY_LIMIT")
  case True
  then show ?thesis by (simp add: processQueue_idle queue_ok_def)
next
  case False
  then obtain task rest where q: "preloadQueue s = task # rest"
    by (cases "preloadQueue s") auto
  define g where "g = generateChapterContent Preload (fst task) (snd task)
      (s\<lparr>preloadQueue := rest, activeWorkers := activeWorkers s + 1\<rparr>)"
  from False have W2: "activeWorkers s < CONCURRENCY_LIMIT" by simp
  have pq: "processQueue s = (snd g)\<lparr>running := running (snd g) @ [fst g]\<rparr>"
    using q W2 g_def by (rule processQueue_start)
  have f: "preloadQueue (snd g) = rest" "activeWorkers (snd g) = activeWorkers s + 1"
    unfolding g_def gcc_workers_fields by simp_all
  have "rest = [] \<or> activeWorkers s \<ge> 2"
    using assms q by auto
  then show ?thesis
    unfolding pq queue_ok_def using f by (auto simp: CONCURRENCY_LIMIT_def)
qed

lemma queue_ok_preloadChapter:
  assumes "queue_ok s"
  shows "queue_ok (preloadChapter t i s)"
proof -
  have "queue_ok (processQueue (s\<lparr>preloadQueue := preloadQueue s @ [(t, i)]\<rparr>))"
    using assms
    by (intro queue_ok_processQueue) (auto simp: queue_ok_def CONCURRENCY_LIMIT_def)
  then show ?thesis
    using assms by (simp add: preloadChapter_def Let_def)
qed

lemma queue_ok_workerDone:
  assumes "queue_ok s"
  shows "queue_ok (workerDone j s)"
proof -
  have "queue_ok (processQueue (s\<lparr>running := x, activeWorkers := activeWorkers s - 1\<rparr>))" for x
    using assms
    by (intro queue_ok_processQueue) (auto simp: queue_ok_def CONCURRENCY_LIMIT_def)
  then show ?thesis
    using assms by (simp add: workerDone_def)
qed

lemma queue_ok_fetch: "queue_ok s \<Longrightarrow> queue_ok (snd (generateChapterContent og t i s))"
  by (simp add: queue_ok_def gcc_workers_fields)

lemma queue_ok_settle: "queue_ok s \<Longrightarrow> queue_ok (settle p resp s)"
  by (simp add: queue_ok_def settle_workers_fields)

lemma consistent_step: "consistent s \<Longrightarrow> consistent (step s e)"
  unfolding consistent_def
  by (cases e)
     (simp_all add: maps_ok_gcc maps_ok_settle maps_ok_preloadChapter maps_ok_workerDone
        workers_ok_fetch workers_ok_settle workers_ok_preloadChapter workers_ok_workerDone
        queue_ok_fetch queue_ok_settle queue_ok_preloadChapter queue_ok_workerDone)

lemma consistent_run: "consistent s \<Longrightarrow> consistent (run s evs)"
  unfolding run_def by (induction evs arbitrary: s) (simp_all add: consistent_step)

lemma consistent_reachable: "consistent (run (init key) evs)"
proof (rule consistent_run)
  have "queue_ok (init key)" by (simp add: queue_ok_def init_def)
  then show "consistent (init key)"
    by (simp add: consistent_def maps_ok_init workers_ok_init)
qed

section \<open>What a step leaves alone\<close>

lemma gcc_cache: "chapterCache (snd (generateChapterContent og t i s)) = chapterCache s"
  by (simp add: generateChapterContent_def Let_def split: option.splits)

lemma gcc_calls_cached:
  "chapterCache s k \<noteq> None \<Longrightarrow>
   adapterCalls k (snd (generateChapterContent og t i s)) = adapterCalls k s"
  by (auto simp: generateChapterContent_def Let_def adapterCalls_def split: option.splits)

lemma processQueue_cases:
  "processQueue s = s \<or>
   (\<exists>task rest. preloadQueue s = task # rest \<and> activeWorkers s < CONCURRENCY_LIMIT \<and>
      processQueue s =
        (snd (generateChapterContent Preload (fst task) (snd task)
                (s\<lparr>preloadQueue := rest, activeWorkers := activeWorkers s + 1\<rparr>)))
        \<lparr>running :=
           running (snd (generateChapterContent Preload (fst task) (snd task)
                (s\<lparr>preloadQueue := rest, activeWorkers := activeWorkers s + 1\<rparr>))) @
           [fst (generateChapterContent Preload (fst task) (snd task)
                (s\<lparr>preloadQueue := rest, activeWorkers := activeWorkers s + 1\<rparr>))]\<rparr>)"
proof (cases "preloadQueue s = [] \<or> activeWorkers s \<ge> CONCURRENCY_LIMIT")
  case True
  then show ?thesis by (simp add: processQueue_idle)
next
  case False
  then obtain task rest where q: "preloadQueue s = task # rest"
    by (cases "preloadQueue s") auto
  from False have W2: "activeWorkers s < CONCURRENCY_LIMIT" by simp
  from processQueue_start [OF q W2 refl] q W2 show ?thesis by blast
qed

lemma processQueue_cache: "chapterCache (processQueue s) = chapterCache s"
  using processQueue_cases [of s] by (auto simp: gcc_cache)

lemma processQueue_calls_cached:
  "chapterCache s k \<noteq> None \<Longrightarrow> adapterCalls k (processQueue s) = adapterCalls k s"
proof -
  assume c: "chapterCache s k \<noteq> None"
  have *: "adapterCalls k (s'\<lparr>running := x\<rparr>) = adapterCalls k s'" for s' x
    by (simp add: adapterCalls_def)
  have **: "adapterCalls k (s\<lparr>preloadQueue := x, activeWorkers := y\<rparr>) = adapterCalls k s" for x y
    by (simp add: adapterCalls_def)
  have "adapterCalls k (snd (generateChapterContent Preload t i
          (s\<lparr>preloadQueue := x, activeWorkers := y\<rparr>))) = adapterCalls k s" for t i x y
    using c by (subst gcc_calls_cached) (simp_all add: **)
  then show ?thesis
    using processQueue_cases [of s] by (auto simp: *)
qed

lemma settle_cache_other:
  "maps_ok s \<Longrightarrow> chapterCache s k \<noteq> None \<Longrightarrow> chapterCache (settle p resp s) k = chapterCache s k"
proof -
  assume ok: "maps_ok s" and c: "chapterCache s k \<noteq> None"
  show ?thesis
  proof (cases "pending s p")
    case None
    then show ?thesis by (simp add: settle_none)
  next
    case (Some r)
    have "activeRequests s (req_key r) = Some p"
      using ok Some unfolding maps_ok_def by blast
    moreover have "activeRequests s k = None"
      using ok c unfolding maps_ok_def by blast
    ultimately have "k \<noteq> req_key r" by auto
    then show ?thesis
      by (cases resp) (simp_all add: settle_Text [OF Some] settle_Throws [OF Some])
  qed
qed

lemma settle_log: "adapterLog (settle p resp s) = adapterLog s"
  by (simp add: settle_def requestTry_def requestFinally_def Let_def
        split: option.splits response.splits)

lemma cached_step:
  assumes "consistent s" "chapterCache s k = Some c"
  shows "chapterCache (step s e) k = Some c \<and> adapterCalls k (step s e) = adapterCalls k s"
proof (cases e)
  case (Fetch t i)
  then show ?thesis using assms by (simp add: gcc_cache gcc_calls_cached)
next
  case (SchedulePreload t i)
  have "adapterCalls k (s\<lparr>preloadQueue := x\<rparr>) = adapterCalls k s" for x
    by (simp add: adapterCalls_def)
  then show ?thesis
    using assms SchedulePreload
    by (simp add: preloadChapter_def Let_def processQueue_cache processQueue_calls_cached)
next
  case (Settle p resp)
  then show ?thesis
    using assms settle_cache_other [of s k p resp]
    by (simp add: consistent_def adapterCalls_def settle_log)
next
  case (WorkerDone j)
  have "adapterCalls k (s\<lparr>running := x, activeWorkers := y\<rparr>) = adapterCalls k s" for x y
    by (simp add: adapterCalls_def)
  then show ?thesis
    using assms WorkerDone
    by (simp add: workerDone_def processQueue_cache processQueue_calls_cached)
qed

lemma cached_run:
  "consistent s \<Longrightarrow> chapterCache s k = Some c \<Longrightarrow>
   chapterCache (run s evs) k = Some c \<and> adapterCalls k (run s evs) = adapterCalls k s"
proof (induction evs arbitrary: s)
  case Nil
  then show ?case by (simp add: run_def)
next
  case (Cons e evs)
  from cached_step [OF Cons.prems] consistent_step [OF Cons.prems(1)]
  have "consistent (step s e)" "chapterCache (step s e) k = Some c"
    "adapterCalls k (step s e) = adapterCalls k s" by auto
  with Cons.IH [of "step s e"] show ?case by (simp add: run_def)
qed

lemma processQueue_apiKey: "apiKey (processQueue s) = apiKey s"
  using processQueue_cases [of s] by (auto simp: gcc_workers_fields)

lemma step_apiKey: "apiKey (step s e) = apiKey s"
  by (cases e)
     (simp_all add: gcc_workers_fields settle_workers_fields preloadChapter_def workerDone_def
        Let_def processQueue_apiKey)

lemma run_apiKey: "apiKey (run s evs) = apiKey s"
  unfolding run_def by (induction evs arbitrary: s) (simp_all add: step_apiKey)

lemma maps_ok_inflight:
  "maps_ok s \<Longrightarrow> pending s p = Some r \<Longrightarrow> activeRequests s (req_key r) = Some p"
  by (simp add: maps_ok_def)

lemma maps_ok_disjoint:
  "maps_ok s \<Longrightarrow> chapterCache s k = None \<or> activeRequests s k = None"
  unfolding maps_ok_def by (cases "chapterCache s k") auto

lemma maps_ok_pending_key:
  "maps_ok s \<Longrightarrow> pending s p = Some r \<Longrightarrow> apiKey s \<noteq> []"
  unfolding maps_ok_def by auto

lemma maps_ok_reachable: "maps_ok (run (init key) evs)"
  using consistent_reachable [of key evs] by (simp add: consistent_def)

section \<open>Preloading and the worker pool\<close>

lemma preloadCalls_le_running:
  assumes "maps_ok s" "workers_ok s"
  shows "preloadCalls s \<le> length (running s)"
proof -
  define P where "P = (\<lambda>p. case pending s p of None \<Rightarrow> False | Some r \<Rightarrow> req_origin r = Preload)"
  define A where "A = {p. P p} \<inter> set [0 ..< nextPromise s]"
  define f where "f = (\<lambda>p. Guarded p (req_index (the (pending s p))))"
  have "preloadCalls s = length (filter P [0 ..< nextPromise s])"
    by (simp add: preloadCalls_def P_def)
  also have "\<dots> = card A"
    unfolding A_def by (rule distinct_length_filter) simp
  also have "\<dots> = card (f ` A)"
  proof (rule card_image [symmetric])
    show "inj_on f A" by (rule inj_onI) (simp add: f_def)
  qed
  also have "\<dots> \<le> card (set (running s))"
  proof (rule card_mono)
    show "finite (set (running s))" by simp
    show "f ` A \<subseteq> set (running s)"
    proof
      fix h assume "h \<in> f ` A"
      then obtain p where p: "P p" and h: "h = f p" by (auto simp: A_def)
      from p obtain r where r: "pending s p = Some r" "req_origin r = Preload"
        by (auto simp: P_def split: option.splits)
      with assms(2) have "Guarded p (req_index r) \<in> set (running s)"
        unfolding workers_ok_def by blast
      with r h show "h \<in> set (running s)" by (simp add: f_def)
    qed
  qed
  also have "\<dots> \<le> length (running s)" by (rule card_length)
  finally show ?thesis .
qed

lemma saturated_eval:
  "activeWorkers saturated = 3"
  "preloadQueue saturated = [(ascii ''A'', 4), (ascii ''A'', 5)]"
  "adapterLog saturated = [(ascii ''A'', 1), (ascii ''A'', 2), (ascii ''A'', 3)]"
  "chapterCache saturated (chapterKey (ascii ''A'') 0) = None"
  "activeRequests saturated (chapterKey (ascii ''A'') 0) = None"
  "chapterCache saturated (chapterKey (ascii ''A'') 4) = None"
  "activeRequests saturated (chapterKey (ascii ''A'') 4) = None"
  "activeRequests saturated (chapterKey (ascii ''A'') 1) = Some 0"
  "pending saturated 2 \<noteq> None"
  "chapterCache saturated (chapterKey (ascii ''A'') 6) = None"
  "activeRequests saturated (chapterKey (ascii ''A'') 6) = None"
  by (simp_all add: saturated_def run_def init_def preloadChapter_def processQueue_def
        generateChapterContent_def chapterKey_def decimal.simps ascii_def Let_def
        CONCURRENCY_LIMIT_def)

lemma preloadChapter_skip:
  "chapterCache s (chapterKey t i) \<noteq> None \<or> activeRequests s (chapterKey t i) \<noteq> None \<Longrightarrow>
   preloadChapter t i s = s"
  by (simp add: preloadChapter_def)

lemma preloadChapter_queued:
  assumes "chapterCache s (chapterKey t i) = None" "activeRequests s (chapterKey t i) = None"
    "activeWorkers s \<ge> CONCURRENCY_LIMIT"
  shows "preloadChapter t i s = s\<lparr>preloadQueue := preloadQueue s @ [(t, i)]\<rparr>"
  using assms by (simp add: preloadChapter_def processQueue_idle)

lemma preloadChapter_started:
  assumes "apiKey s \<noteq> []" "chapterCache s (chapterKey t i) = None"
    "activeRequests s (chapterKey t i) = None" "preloadQueue s = []"
    "activeWorkers s < CONCURRENCY_LIMIT"
  shows "preloadChapter t i s =
     s\<lparr>activeWorkers := activeWorkers s + 1,
       adapterLog := adapterLog s @ [(t, i)],
       pending := (pending s)(nextPromise s \<mapsto>
           \<lparr>req_title = t, req_index = i, req_key = chapterKey t i, req_origin = Preload\<rparr>),
       nextPromise := nextPromise s + 1,
       activeRequests := (activeRequests s)(chapterKey t i \<mapsto> nextPromise s),
       running := running s @ [Guarded (nextPromise s) i]\<rparr>"
proof -
  define s0 where "s0 = s\<lparr>preloadQueue := preloadQueue s @ [(t, i)]\<rparr>"
  define s1 where "s1 = s0\<lparr>preloadQueue := [], activeWorkers := activeWorkers s0 + 1\<rparr>"
  define g where "g = generateChapterContent Preload (fst (t, i)) (snd (t, i)) s1"
  have pc: "preloadChapter t i s = processQueue s0"
    using assms by (simp add: preloadChapter_def s0_def)
  have q: "preloadQueue s0 = (t, i) # []" and w: "activeWorkers s0 < CONCURRENCY_LIMIT"
    using assms by (simp_all add: s0_def)
  have pq: "processQueue s0 = (snd g)\<lparr>running := running (snd g) @ [fst g]\<rparr>"
    using q w by (rule processQueue_start) (simp add: g_def s1_def)
  have "apiKey s1 \<noteq> []" "chapterCache s1 (chapterKey t i) = None"
    "activeRequests s1 (chapterKey t i) = None"
    using assms by (simp_all add: s1_def s0_def)
  from gcc_fresh [OF this, of Preload]
  show ?thesis
    unfolding pc pq g_def fst_conv snd_conv
    using assms(4) by (simp add: s1_def s0_def)
qed

section \<open>The reader: one call settles, one timer fires\<close>

lemma loadChapter_settled_retry:
  "accepted out = None \<Longrightarrow> retryCount c < 3 \<Longrightarrow>
   loadChapter_settled c out r =
     (if \<not> isAutoSwitching c \<and> chapter_st c \<noteq> None
      then r\<lparr>isAutoSwitching := True, retryCount := retryCount r + 1,
             currentSourceName := backupLabel (retryCount c + 1), loading := False\<rparr>
      else r\<lparr>isAutoSwitching := True, retryCount := retryCount r + 1,
             currentSourceName := backupLabel (retryCount c + 1)\<rparr>)"
  by (simp add: loadChapter_settled_def Let_def)

lemma loadChapter_settled_final:
  "accepted out = None \<Longrightarrow> retryCount c \<ge> 3 \<Longrightarrow>
   loadChapter_settled c out r = r\<lparr>chapter_st := None, isAutoSwitching := False, loading := False\<rparr>"
  by (simp add: loadChapter_settled_def Let_def)

lemma loadChapter_settled_success:
  "accepted out = Some data \<Longrightarrow>
   retryCount (loadChapter_settled c out r) = retryCount r \<and>
   chapterIndex (loadChapter_settled c out r) = chapterIndex r"
  by (simp add: loadChapter_settled_def Let_def)

lemma loadChapter_settled_chapterIndex:
  "chapterIndex (loadChapter_settled c out r) = chapterIndex r"
  by (simp add: loadChapter_settled_def Let_def split: option.splits)

lemma runEffects_same:
  "chapterIndex (live sys) = chapterIndex prev \<Longrightarrow> retryCount (live sys) = retryCount prev \<Longrightarrow>
   runEffects prev sys = sys"
  by (simp add: runEffects_def Let_def)

lemma runEffects_retry:
  "chapterIndex (live sys) = chapterIndex prev \<Longrightarrow> retryCount (live sys) \<noteq> retryCount prev \<Longrightarrow>
   retryCount (live sys) > 0 \<Longrightarrow>
   runEffects prev sys =
     sys\<lparr>live := (live sys)\<lparr>loading := True\<rparr>,
          runs := runs sys @ [\<lparr>closure = live sys, phase = Waiting\<rparr>]\<rparr>"
  by (simp add: runEffects_def startRun_def Let_def)

lemma callSettled_retry:
  assumes "j < length (runs sys)" "phase (runs sys ! j) = Fetching"
    "retryCount (closure (runs sys ! j)) < 3" "accepted out = None"
    "chapterIndex (closure (runs sys ! j)) = chapterIndex (live sys)"
  shows "callSettled j out sys =
     sys\<lparr>live := (loadChapter_settled (closure (runs sys ! j)) out (live sys))\<lparr>loading := True\<rparr>,
          runs := take j (runs sys) @ drop (Suc j) (runs sys) @
             [\<lparr>closure = loadChapter_settled (closure (runs sys ! j)) out (live sys),
               phase = Waiting\<rparr>]\<rparr>"
proof -
  let ?c = "closure (runs sys ! j)"
  let ?l = "loadChapter_settled ?c out (live sys)"
  let ?s1 = "sys\<lparr>runs := take j (runs sys) @ drop (Suc j) (runs sys), live := ?l\<rparr>"
  have rc: "retryCount ?l = retryCount (live sys) + 1"
    using assms(3,4) by (simp add: loadChapter_settled_retry)
  have cs: "callSettled j out sys = runEffects (live sys) ?s1"
    using assms(1,2) by (simp add: callSettled_def)
  have "runEffects (live sys) ?s1 =
      ?s1\<lparr>live := (live ?s1)\<lparr>loading := True\<rparr>,
          runs := runs ?s1 @ [\<lparr>closure = live ?s1, phase = Waiting\<rparr>]\<rparr>"
    by (rule runEffects_retry) (simp_all add: rc loadChapter_settled_chapterIndex)
  then show ?thesis unfolding cs by simp
qed

lemma callSettled_final:
  assumes "j < length (runs sys)" "phase (runs sys ! j) = Fetching"
    "retryCount (closure (runs sys ! j)) \<ge> 3" "accepted out = None"
  shows "callSettled j out sys =
     sys\<lparr>live := (live sys)\<lparr>chapter_st := None, isAutoSwitching := False, loading := False\<rparr>,
          runs := take j (runs sys) @ drop (Suc j) (runs sys)\<rparr>"
proof -
  have "callSettled j out sys =
      runEffects (live sys)
        (sys\<lparr>runs := take j (runs sys) @ drop (Suc j) (runs sys),
             live := (live sys)\<lparr>chapter_st := None, isAutoSwitching := False, loading := False\<rparr>\<rparr>)"
    using assms by (simp add: callSettled_def loadChapter_settled_final)
  also have "\<dots> = sys\<lparr>runs := take j (runs sys) @ drop (Suc j) (runs sys),
             live := (live sys)\<lparr>chapter_st := None, isAutoSwitching := False, loading := False\<rparr>\<rparr>"
    by (rule runEffects_same) simp_all
  finally show ?thesis by simp
qed

lemma callSettled_success:
  assumes "j < length (runs sys)" "phase (runs sys ! j) = Fetching" "accepted out = Some data"
  shows "callSettled j out sys =
     sys\<lparr>live := loadChapter_settled (closure (runs sys ! j)) out (live sys),
          runs := take j (runs sys) @ drop (Suc j) (runs sys)\<rparr>"
proof -
  have "callSettled j out sys =
      runEffects (live sys)
        (sys\<lparr>runs := take j (runs sys) @ drop (Suc j) (runs sys),
             live := loadChapter_settled (closure (runs sys ! j)) out (live sys)\<rparr>)"
    using assms by (simp add: callSettled_def)
  also have "\<dots> = sys\<lparr>runs := take j (runs sys) @ drop (Suc j) (runs sys),
             live := loadChapter_settled (closure (runs sys ! j)) out (live sys)\<rparr>"
    by (rule runEffects_same) (simp_all add: loadChapter_settled_success [OF assms(3)])
  finally show ?thesis by simp
qed

lemma callSettled_idle:
  "\<not> (j < length (runs sys) \<and> phase (runs sys ! j) = Fetching) \<Longrightarrow> callSettled j out sys = sys"
  by (auto simp: callSettled_def)

lemma timerFired_idle:
  "\<not> (j < length (runs sys) \<and> phase (runs sys ! j) = Waiting) \<Longrightarrow> timerFired j sys = sys"
  by (auto simp: timerFired_def)

lemma sessionInv_timer:
  assumes "sessionInv f cs0 i sys"
  shows "sessionInv f cs0 i (timerFired j sys)"
proof (cases "j < length (runs sys) \<and> phase (runs sys ! j) = Waiting")
  case False
  then show ?thesis using assms by (simp add: timerFired_idle)
next
  case True
  from assms obtain n where n: "calls sys = cs0 @ replicate n (1500, prop_title sys, i)"
    and c: "case runs sys of
           [] \<Rightarrow> n \<le> 3 \<and>
                (f \<longrightarrow> n = 3 \<and> finalFailure (live sys) \<and> retryCount (live sys) = 3)
         | r # rs \<Rightarrow>
             rs = [] \<and> retryCount (closure r) = retryCount (live sys) \<and>
             chapterIndex (closure r) = i \<and> chapterIndex (live sys) = i \<and>
             retryCount (live sys) \<le> 3 \<and>
             retryCount (live sys) = n + (if phase r = Waiting then 1 else 0)"
    unfolding sessionInv_def by blast
  from True c obtain r where r: "runs sys = [r]" "j = 0" "phase r = Waiting"
    by (cases "runs sys") (auto split: list.splits)
  from c r have f: "retryCount (closure r) = retryCount (live sys)" "chapterIndex (closure r) = i"
    "chapterIndex (live sys) = i" "retryCount (live sys) \<le> 3" "retryCount (live sys) = n + 1"
    by simp_all
  have "calls (timerFired j sys) = cs0 @ replicate (Suc n) (1500, prop_title sys, i)"
    using r f n by (simp add: timerFired_def attemptDelay_def replicate_append_same)
  moreover have "runs (timerFired j sys) = [r\<lparr>phase := Fetching\<rparr>]"
    "live (timerFired j sys) = live sys" "prop_title (timerFired j sys) = prop_title sys"
    using r by (simp_all add: timerFired_def)
  ultimately show ?thesis
    unfolding sessionInv_def using f by (intro exI [of _ "Suc n"]) simp
qed

lemma sessionInv_settled:
  assumes "sessionInv f cs0 i sys" "f \<longrightarrow> accepted out = None"
  shows "sessionInv f cs0 i (callSettled j out sys)"
proof (cases "j < length (runs sys) \<and> phase (runs sys ! j) = Fetching")
  case False
  then show ?thesis using assms by (simp add: callSettled_idle)
next
  case True
  from assms obtain n where n: "calls sys = cs0 @ replicate n (1500, prop_title sys, i)"
    and c: "case runs sys of
           [] \<Rightarrow> n \<le> 3 \<and>
                (f \<longrightarrow> n = 3 \<and> finalFailure (live sys) \<and> retryCount (live sys) = 3)
         | r # rs \<Rightarrow>
             rs = [] \<and> retryCount (closure r) = retryCount (live sys) \<and>
             chapterIndex (closure r) = i \<and> chapterIndex (live sys) = i \<and>
             retryCount (live sys) \<le> 3 \<and>
             retryCount (live sys) = n + (if phase r = Waiting then 1 else 0)"
    unfolding sessionInv_def by blast
  from True c obtain r where r: "runs sys = [r]" "j = 0" "phase r = Fetching"
    by (cases "runs sys") (auto split: list.splits)
  from c r have f: "retryCount (closure r) = retryCount (live sys)" "chapterIndex (closure r) = i"
    "chapterIndex (live sys) = i" "retryCount (live sys) \<le> 3" "retryCount (live sys) = n"
    by simp_all
  have pre: "j < length (runs sys)" "phase (runs sys ! j) = Fetching"
    using r by simp_all
  show ?thesis
  proof (cases "accepted out")
    case (Some data)
    with assms(2) have nf: "\<not> f" by simp
    show ?thesis
      unfolding sessionInv_def callSettled_success [OF pre Some]
      using n f r nf by (intro exI [of _ n]) simp
  next
    case None
    show ?thesis
    proof (cases "retryCount (closure r) < 3")
      case True
      have pre3: "retryCount (closure (runs sys ! j)) < 3"
        "chapterIndex (closure (runs sys ! j)) = chapterIndex (live sys)"
        using True r f by simp_all
      show ?thesis
        unfolding sessionInv_def callSettled_retry [OF pre pre3(1) None pre3(2)]
        using n f r True
        by (intro exI [of _ n])
           (simp add: loadChapter_settled_retry [OF None] loadChapter_settled_chapterIndex)
    next
      case False
      then have pre3: "retryCount (closure (runs sys ! j)) \<ge> 3" using r by simp
      from False f have n3: "n = 3" by simp
      show ?thesis
        unfolding sessionInv_def callSettled_final [OF pre pre3 None]
        using n f r n3 by (intro exI [of _ n]) (simp add: finalFailure_def)
    qed
  qed
qed

lemma sessionInv_step:
  assumes "sessionInv f cs0 i sys" "sessionEvent e" "f \<longrightarrow> failingEvent e"
  shows "sessionInv f cs0 i (stepReader sys e)"
  using assms by (cases e) (simp_all add: sessionInv_timer sessionInv_settled)

lemma sessionInv_run:
  "sessionInv f cs0 i sys \<Longrightarrow> list_all sessionEvent evs \<Longrightarrow> (f \<longrightarrow> list_all failingEvent evs) \<Longrightarrow>
   sessionInv f cs0 i (runReader sys evs)"
  unfolding runReader_def
  by (induction evs arbitrary: sys) (simp_all add: sessionInv_step)

lemma failing_sessionEvent: "failingEvent e \<Longrightarrow> sessionEvent e"
  by (cases e) simp_all

lemma step_prop_title: "prop_title (stepReader sys e) = prop_title sys"
  by (cases e)
     (simp_all add: timerFired_def callSettled_def nextChapter_def prevChapter_def
        runEffects_def startRun_def Let_def)

lemma run_prop_title: "prop_title (runReader sys evs) = prop_title sys"
  unfolding runReader_def by (induction evs arbitrary: sys) (simp_all add: step_prop_title)

lemma attemptE:
  assumes "attempt k ph sys"
  obtains r where "runs sys = [r]" "phase r = ph" "retryCount (closure r) = k"
    "retryCount (live sys) = k" "chapterIndex (closure r) = chapterIndex (live sys)"
  using assms unfolding attempt_def by (auto split: list.splits)

lemma attempt_fail:
  assumes "attempt k Fetching sys" "k < 3" "accepted out = None"
  shows "attempt (Suc k) Waiting (callSettled 0 out sys) \<and>
     calls (callSettled 0 out sys) = calls sys \<and>
     chapterIndex (live (callSettled 0 out sys)) = chapterIndex (live sys) \<and>
     isAutoSwitching (live (callSettled 0 out sys)) \<and>
     loading (live (callSettled 0 out sys)) \<and>
     currentSourceName (live (callSettled 0 out sys)) = backupLabel (Suc k)"
proof -
  from assms(1) obtain r where r: "runs sys = [r]" "phase r = Fetching"
    "retryCount (closure r) = k" "retryCount (live sys) = k"
    "chapterIndex (closure r) = chapterIndex (live sys)"
    by (rule attemptE)
  have pre: "0 < length (runs sys)" "phase (runs sys ! 0) = Fetching"
    "retryCount (closure (runs sys ! 0)) < 3"
    "chapterIndex (closure (runs sys ! 0)) = chapterIndex (live sys)"
    using r assms(2) by simp_all
  have k3: "retryCount (closure r) < 3" using r assms(2) by simp
  show ?thesis
    unfolding callSettled_retry [OF pre(1,2,3) assms(3) pre(4)]
    using r by (simp add: attempt_def loadChapter_settled_retry [OF assms(3) k3])
qed

lemma attempt_timer:
  assumes "attempt k Waiting sys" "k > 0"
  shows "attempt k Fetching (timerFired 0 sys) \<and>
     calls (timerFired 0 sys) = calls sys @ [(1500, prop_title sys, chapterIndex (live sys))] \<and>
     live (timerFired 0 sys) = live sys"
proof -
  from assms(1) obtain r where r: "runs sys = [r]" "phase r = Waiting"
    "retryCount (closure r) = k" "retryCount (live sys) = k"
    "chapterIndex (closure r) = chapterIndex (live sys)"
    by (rule attemptE)
  show ?thesis
    using r assms(2) by (simp add: timerFired_def attempt_def attemptDelay_def)
qed

lemma attempt_last:
  assumes "attempt k Fetching sys" "k \<ge> 3" "accepted out = None"
  shows "runs (callSettled 0 out sys) = [] \<and> finalFailure (live (callSettled 0 out sys)) \<and>
     calls (callSettled 0 out sys) = calls sys"
proof -
  from assms(1) obtain r where r: "runs sys = [r]" "phase r = Fetching"
    "retryCount (closure r) = k" by (rule attemptE)
  have pre: "0 < length (runs sys)" "phase (runs sys ! 0) = Fetching"
    "retryCount (closure (runs sys ! 0)) \<ge> 3"
    using r assms(2) by simp_all
  show ?thesis
    unfolding callSettled_final [OF pre assms(3)]
    using r by (simp add: finalFailure_def)
qed

lemma attempt_sessionInv:
  assumes "attempt 0 Fetching sys"
  shows "sessionInv f (calls sys) (chapterIndex (live sys)) sys"
proof -
  from assms obtain r where r: "runs sys = [r]" "phase r = Fetching"
    "retryCount (closure r) = 0" "retryCount (live sys) = 0"
    "chapterIndex (closure r) = chapterIndex (live sys)"
    by (rule attemptE)
  show ?thesis
    unfolding sessionInv_def using r by (intro exI [of _ 0]) simp
qed

lemma three_rounds:
  assumes a0: "attempt 0 Fetching sys"
    and f: "accepted o1 = None" "accepted o2 = None" "accepted o3 = None"
  shows "attempt 3 Waiting
       (runReader sys [CallSettled 0 o1, TimerFired 0, CallSettled 0 o2, TimerFired 0,
          CallSettled 0 o3]) \<and>
     isAutoSwitching (live
       (runReader sys [CallSettled 0 o1, TimerFired 0, CallSettled 0 o2, TimerFired 0,
          CallSettled 0 o3])) \<and>
     calls (runReader sys [CallSettled 0 o1, TimerFired 0, CallSettled 0 o2, TimerFired 0,
          CallSettled 0 o3]) =
       calls sys @ replicate 2 (1500, prop_title sys, chapterIndex (live sys)) \<and>
     chapterIndex (live (runReader sys [CallSettled 0 o1, TimerFired 0, CallSettled 0 o2,
          TimerFired 0, CallSettled 0 o3])) = chapterIndex (live sys)"
proof -
  define s1 where "s1 = callSettled 0 o1 sys"
  define s2 where "s2 = timerFired 0 s1"
  define s3 where "s3 = callSettled 0 o2 s2"
  define s4 where "s4 = timerFired 0 s3"
  define s5 where "s5 = callSettled 0 o3 s4"
  have run: "runReader sys [CallSettled 0 o1, TimerFired 0, CallSettled 0 o2, TimerFired 0,
          CallSettled 0 o3] = s5"
    by (simp add: runReader_def s1_def s2_def s3_def s4_def s5_def)
  have t: "prop_title s1 = prop_title sys" "prop_title s3 = prop_title sys"
    using step_prop_title [of sys "CallSettled 0 o1"] step_prop_title [of s1 "TimerFired 0"]
      step_prop_title [of s2 "CallSettled 0 o2"]
    by (simp_all add: s1_def s2_def s3_def)
  from attempt_fail [OF a0 _ f(1)]
  have 1: "attempt (Suc 0) Waiting s1" "calls s1 = calls sys"
    "chapterIndex (live s1) = chapterIndex (live sys)"
    by (simp_all add: s1_def)
  from attempt_timer [OF 1(1)]
  have 2: "attempt (Suc 0) Fetching s2"
    "calls s2 = calls sys @ [(1500, prop_title sys, chapterIndex (live sys))]"
    "chapterIndex (live s2) = chapterIndex (live sys)"
    using 1 t by (simp_all add: s2_def)
  from attempt_fail [OF 2(1) _ f(2)]
  have 3: "attempt (Suc (Suc 0)) Waiting s3" "calls s3 = calls s2"
    "chapterIndex (live s3) = chapterIndex (live sys)"
    using 2 by (simp_all add: s3_def)
  from attempt_timer [OF 3(1)]
  have 4: "attempt (Suc (Suc 0)) Fetching s4"
    "calls s4 = calls s3 @ [(1500, prop_title sys, chapterIndex (live sys))]"
    "chapterIndex (live s4) = chapterIndex (live sys)"
    using 3 t by (simp_all add: s4_def)
  from attempt_fail [OF 4(1) _ f(3)]
  have 5: "attempt (Suc (Suc (Suc 0))) Waiting s5" "calls s5 = calls s4"
    "chapterIndex (live s5) = chapterIndex (live sys)" "isAutoSwitching (live s5)"
    using 4 by (simp_all add: s5_def)
  have n3: "Suc (Suc (Suc 0)) = 3" by simp
  show ?thesis
    unfolding run using 5 4(2) 3(2) 2(2) unfolding n3
    by (simp add: numeral_2_eq_2)
qed

lemma runReader_snoc: "runReader sys (evs @ [e]) = stepReader (runReader sys evs) e"
  by (simp add: runReader_def)

lemma mount_attempt: "attempt 0 Fetching (mountReader t src i)"
  by (simp add: mountReader_def startRun_def mount_def resetRetry_def attempt_def Let_def)

lemma mount_calls:
  "calls (mountReader t src i) = [(0, t, i)]"
  "prop_title (mountReader t src i) = t"
  "chapterIndex (live (mountReader t src i)) = i"
  "retryCount (live (mountReader t src i)) = 0"
  "runs (mountReader t src i) = [\<lparr>closure = mount i src, phase = Fetching\<rparr>]"
  by (simp_all add: mountReader_def startRun_def mount_def resetRetry_def attemptDelay_def Let_def)

section \<open>Request deduplication\<close>

text \<open>
  What \<open>n + 1\<close> calls for one chapter return when the API key is present and the key is
  neither cached nor in flight: the first call starts the request and calls the adapter
  once, each later call joins. A success gives every caller the same chapter. After a
  failure the first caller holds the placeholder chapter of lines 193 to 198 and a joined
  caller holds the rejection. In every reachable state a call for the key of a pending
  request joins it and changes nothing.
\<close>

lemma fetch_joins_one_request:
  assumes "apiKey s \<noteq> []" "chapterCache s (chapterKey t i) = None"
    "activeRequests s (chapterKey t i) = None"
  shows "case fetchAll (Suc n) t i s of (hs, s') \<Rightarrow>
     adapterLog s' = adapterLog s @ [(t, i)] \<and>
     adapterCalls (chapterKey t i) s' = adapterCalls (chapterKey t i) s + 1 \<and>
     hs = Guarded (nextPromise s) i # replicate n (Joined (nextPromise s)) \<and>
     (\<forall>h \<in> set hs. observe (settle (nextPromise s) (Text tx) s') h =
        Some (Resolved (buildChapter (chapterKey t i) i tx))) \<and>
     observe (settle (nextPromise s) (Throws e) s') (hd hs) = Some (Resolved (failedChapter i)) \<and>
     (\<forall>h \<in> set (tl hs). observe (settle (nextPromise s) (Throws e) s') h = Some (Rejected e)) \<and>
     (pending (run (init key) evs) p = Some r \<and> chapterKey t' i' = req_key r \<longrightarrow>
        generateChapterContent og t' i' (run (init key) evs) = (Joined p, run (init key) evs))"
proof -
  let ?p = "nextPromise s"
  let ?s1 = "snd (generateChapterContent Foreground t i s)"
  let ?r = "\<lparr>req_title = t, req_index = i, req_key = chapterKey t i, req_origin = Foreground\<rparr>"
  have fa: "fetchAll (Suc n) t i s = (Guarded ?p i # replicate n (Joined ?p), ?s1)"
    using assms by (rule fetchAll_fresh)
  have pend: "pending ?s1 ?p = Some ?r"
    using assms by (simp add: gcc_fresh)
  have log: "adapterLog ?s1 = adapterLog s @ [(t, i)]"
    using assms by (simp add: gcc_fresh)
  have ok: "settled (settle ?p (Text tx) ?s1) ?p =
      Some (Resolved (buildChapter (chapterKey t i) i tx))"
    by (simp add: settle_Text [OF pend])
  have bad: "settled (settle ?p (Throws e) ?s1) ?p = Some (Rejected e)"
    by (simp add: settle_Throws [OF pend])
  have joins: "generateChapterContent og t' i' (run (init key) evs) =
      (Joined p, run (init key) evs)"
    if h: "pending (run (init key) evs) p = Some r" "chapterKey t' i' = req_key r"
  proof -
    have inv: "maps_ok (run (init key) evs)" by (rule maps_ok_reachable)
    have act: "activeRequests (run (init key) evs) (chapterKey t' i') = Some p"
      using maps_ok_inflight [OF inv h(1)] h(2) by simp
    with maps_ok_disjoint [OF inv, of "chapterKey t' i'"]
    have nc: "chapterCache (run (init key) evs) (chapterKey t' i') = None" by auto
    from maps_ok_pending_key [OF inv h(1)] nc act show ?thesis by (rule gcc_joined)
  qed
  have main: "case fetchAll (Suc n) t i s of (hs, s') \<Rightarrow>
     adapterLog s' = adapterLog s @ [(t, i)] \<and>
     adapterCalls (chapterKey t i) s' = adapterCalls (chapterKey t i) s + 1 \<and>
     hs = Guarded (nextPromise s) i # replicate n (Joined (nextPromise s)) \<and>
     (\<forall>h \<in> set hs. observe (settle (nextPromise s) (Text tx) s') h =
        Some (Resolved (buildChapter (chapterKey t i) i tx))) \<and>
     observe (settle (nextPromise s) (Throws e) s') (hd hs) = Some (Resolved (failedChapter i)) \<and>
     (\<forall>h \<in> set (tl hs). observe (settle (nextPromise s) (Throws e) s') h = Some (Rejected e))"
    unfolding fa using log ok bad by (auto simp: adapterCalls_def)
  from main joins show ?thesis by (simp split: prod.splits)
qed

text \<open>
  Claim C1: of \<open>N\<close> calls for one key made before the request settles, all observe the same
  outcome, and the adapter is called once. The code calls the adapter once, but when that
  call fails the callers do not observe the same outcome. With the key \<^verbatim>\<open>K\<close>, two calls
  for chapter 0 of \<^verbatim>\<open>A\<close> and the adapter failing with \<^verbatim>\<open>boom\<close>: the first caller is
  resolved with the placeholder chapter, the second is rejected with \<^verbatim>\<open>boom\<close>.
\<close>

theorem fetch_failure_outcomes_differ:
  "fst (fetchAll 2 (ascii ''A'') 0 (init (ascii ''K''))) = [Guarded 0 0, Joined 0] \<and>
   adapterLog (snd (fetchAll 2 (ascii ''A'') 0 (init (ascii ''K'')))) = [(ascii ''A'', 0)] \<and>
   map (observe (settle 0 (Throws (ascii ''boom''))
          (snd (fetchAll 2 (ascii ''A'') 0 (init (ascii ''K''))))))
       (fst (fetchAll 2 (ascii ''A'') 0 (init (ascii ''K'')))) =
     [Some (Resolved (failedChapter 0)), Some (Rejected (ascii ''boom''))]"
  by (simp add: numeral_2_eq_2 init_def generateChapterContent_def chapterKey_def
        decimal.simps ascii_def settle_def requestTry_def requestFinally_def Let_def)

section \<open>Missing API key\<close>

text \<open>
  Claim C10. Without an API key \<^verbatim>\<open>generateChapterContent\<close> returns, for every title,
  index and state, the chapter
  \<^verbatim>\<open>{id: 'error', title: 'Error', content: 'API Key missing or error.', number: 1}\<close>
  as a value that is resolved at once, and returns the state as it was: the result does not
  depend on the cache or the in-flight map, neither is changed and the adapter is not
  called. \<^verbatim>\<open>searchNovels\<close> and \<^verbatim>\<open>getRankings\<close> return the empty list whatever the
  adapter would have answered.
\<close>

theorem no_key_sentinel:
  assumes "apiKey s = []"
  shows "generateChapterContent og t i s =
      (Immediate \<lparr>ch_id = ascii ''error'', ch_title = ascii ''Error'',
         ch_content = ascii ''API Key missing or error.'', ch_number = 1\<rparr>, s) \<and>
    observe s' (fst (generateChapterContent og t i s)) =
      Some (Resolved \<lparr>ch_id = ascii ''error'', ch_title = ascii ''Error'',
         ch_content = ascii ''API Key missing or error.'', ch_number = 1\<rparr>) \<and>
    searchNovels s query resp = [] \<and> getRankings s cat resp' = []"
  using assms by (simp add: gcc_nokey missingKeyChapter_def searchNovels_def getRankings_def)

theorem no_key_sentinel_witness:
  "apiKey (init []) = [] \<and>
   generateChapterContent Foreground (ascii ''A'') 7 (init []) =
      (Immediate \<lparr>ch_id = ascii ''error'', ch_title = ascii ''Error'',
         ch_content = ascii ''API Key missing or error.'', ch_number = 1\<rparr>, init []) \<and>
   searchNovels (init []) (ascii ''q'') (ListingItems [True]) = [] \<and>
   getRankings (init []) Urban (ListingItems [True]) = []"
proof -
  have h: "apiKey (init []) = []" by (simp add: init_def)
  show ?thesis
    using no_key_sentinel [OF h, of Foreground "ascii ''A''" 7 "init []" "ascii ''q''"
        "ListingItems [True]" Urban "ListingItems [True]"] h
    by simp
qed

section \<open>Short payloads\<close>

text \<open>
  When the adapter call of a pending request succeeds, the chapter built from the text is
  written to the cache whatever its length, the key leaves the in-flight map, and the
  first caller and every joined caller are resolved with that chapter. The reader then
  treats a chapter whose content has fewer than 50 code units exactly as it treats a
  rejected call.
\<close>

lemma short_payload_cached:
  assumes "pending s p = Some r"
  shows "chapterCache (settle p (Text tx) s) (req_key r) =
       Some (buildChapter (req_key r) (req_index r) tx) \<and>
     activeRequests (settle p (Text tx) s) (req_key r) = None \<and>
     observe (settle p (Text tx) s) (Joined p) =
       Some (Resolved (buildChapter (req_key r) (req_index r) tx)) \<and>
     observe (settle p (Text tx) s) (Guarded p i) =
       Some (Resolved (buildChapter (req_key r) (req_index r) tx)) \<and>
     (length (ch_content (buildChapter (req_key r) (req_index r) tx)) < 50 \<longrightarrow>
        accepted (Resolved (buildChapter (req_key r) (req_index r) tx)) = None \<and>
        loadChapter_settled c (Resolved (buildChapter (req_key r) (req_index r) tx)) rd =
          loadChapter_settled c (Rejected e) rd)"
  by (simp add: settle_Text [OF assms] accepted_def loadChapter_settled_def)

text \<open>
  Claim C2: a payload whose body is below the minimum length is a failure, is not cached,
  and the joined callers are rejected. The code does not do this. With the key \<^verbatim>\<open>K\<close>, two
  calls for chapter 0 of \<^verbatim>\<open>A\<close> and the adapter answering a title line and the body
  \<^verbatim>\<open>short\<close>: the chapter with its body of 5 code units is in the cache, both callers are
  resolved with it, and the reader does not accept it.
\<close>

theorem short_payload_failing_input:
  "chapterCache
     (run (init (ascii ''K''))
        [Fetch (ascii ''A'') 0, Fetch (ascii ''A'') 0,
         Settle 0 (Text (Some (ascii ''T'' @ [0x0A] @ ascii ''short'')))]) (ascii ''A-0'') =
     Some \<lparr>ch_id = ascii ''A-0'', ch_title = ascii ''T'', ch_content = ascii ''short'',
      ch_number = 1\<rparr> \<and>
   fst (generateChapterContent Foreground (ascii ''A'') 0
          (run (init (ascii ''K'')) [Fetch (ascii ''A'') 0])) = Joined 0 \<and>
   observe
     (run (init (ascii ''K''))
        [Fetch (ascii ''A'') 0, Fetch (ascii ''A'') 0,
         Settle 0 (Text (Some (ascii ''T'' @ [0x0A] @ ascii ''short'')))]) (Joined 0) =
     Some (Resolved \<lparr>ch_id = ascii ''A-0'', ch_title = ascii ''T'', ch_content = ascii ''short'',
      ch_number = 1\<rparr>) \<and>
   observe
     (run (init (ascii ''K''))
        [Fetch (ascii ''A'') 0, Fetch (ascii ''A'') 0,
         Settle 0 (Text (Some (ascii ''T'' @ [0x0A] @ ascii ''short'')))]) (Guarded 0 0) =
     Some (Resolved \<lparr>ch_id = ascii ''A-0'', ch_title = ascii ''T'', ch_content = ascii ''short'',
      ch_number = 1\<rparr>) \<and>
   length (ascii ''short'') = 5 \<and>
   accepted (Resolved \<lparr>ch_id = ascii ''A-0'', ch_title = ascii ''T'',
      ch_content = ascii ''short'', ch_number = 1\<rparr>) = None"
  by (simp add: run_def init_def generateChapterContent_def chapterKey_def
        decimal.simps ascii_def settle_def requestTry_def requestFinally_def Let_def
        buildChapter_def strip_heading_def accepted_def)

section \<open>Cache and in-flight map\<close>

text \<open>
  Claim C4, as amended. In every reachable state, that is whenever other code can run, a
  key is in at most one of the cache and the in-flight map. While a request is pending its
  key is in flight and not cached. When its adapter call succeeds, the \<^verbatim>\<open>try\<close> block
  writes the cache first, with the key still in the in-flight map, and the \<^verbatim>\<open>finally\<close>
  block removes the key afterwards, in the same uninterrupted continuation; after it the
  key is cached and not in flight. When the call fails, the key is removed and nothing is
  cached.
\<close>

theorem cache_inflight_disjoint:
  "(chapterCache (run (init key) evs) k = None \<or> activeRequests (run (init key) evs) k = None) \<and>
   (pending (run (init key) evs) p = Some r \<longrightarrow>
      activeRequests (run (init key) evs) (req_key r) = Some p \<and>
      chapterCache (run (init key) evs) (req_key r) = None \<and>
      chapterCache (snd (requestTry r (Text tx) (run (init key) evs))) (req_key r) =
        Some (buildChapter (req_key r) (req_index r) tx) \<and>
      activeRequests (snd (requestTry r (Text tx) (run (init key) evs))) (req_key r) = Some p \<and>
      activeRequests (requestFinally r (snd (requestTry r (Text tx) (run (init key) evs))))
        (req_key r) = None \<and>
      chapterCache (settle p (Text tx) (run (init key) evs)) (req_key r) =
        Some (buildChapter (req_key r) (req_index r) tx) \<and>
      activeRequests (settle p (Text tx) (run (init key) evs)) (req_key r) = None \<and>
      chapterCache (settle p (Throws e) (run (init key) evs)) (req_key r) = None \<and>
      activeRequests (settle p (Throws e) (run (init key) evs)) (req_key r) = None)"
proof -
  let ?s = "run (init key) evs"
  have ok: "maps_ok ?s"
    by (rule maps_ok_reachable)
  have disj: "chapterCache ?s k = None \<or> activeRequests ?s k = None" for k
    using ok by (rule maps_ok_disjoint)
  have rest: ?thesis if pend: "pending ?s p = Some r"
  proof -
    have act: "activeRequests ?s (req_key r) = Some p"
      using ok pend by (rule maps_ok_inflight)
    with disj [of "req_key r"] have nc: "chapterCache ?s (req_key r) = None" by auto
    show ?thesis
      using act nc disj [of k] pend
      by (simp add: settle_Text [OF pend] settle_Throws [OF pend] requestTry_def
            requestFinally_def Let_def)
  qed
  show ?thesis
  proof (cases "pending ?s p = Some r")
    case True
    then show ?thesis by (rule rest)
  next
    case False
    with disj [of k] show ?thesis by simp
  qed
qed

theorem cache_inflight_disjoint_witness:
  "pending (run (init (ascii ''K'')) [Fetch (ascii ''A'') 0]) 0 =
     Some \<lparr>req_title = ascii ''A'', req_index = 0, req_key = ascii ''A-0'',
           req_origin = Foreground\<rparr> \<and>
   activeRequests (run (init (ascii ''K'')) [Fetch (ascii ''A'') 0]) (ascii ''A-0'') = Some 0 \<and>
   chapterCache (run (init (ascii ''K'')) [Fetch (ascii ''A'') 0]) (ascii ''A-0'') = None \<and>
   chapterCache (settle 0 (Text None) (run (init (ascii ''K'')) [Fetch (ascii ''A'') 0]))
     (ascii ''A-0'') = Some (buildChapter (ascii ''A-0'') 0 None) \<and>
   activeRequests (settle 0 (Text None) (run (init (ascii ''K'')) [Fetch (ascii ''A'') 0]))
     (ascii ''A-0'') = None"
proof -
  let ?r = "\<lparr>req_title = ascii ''A'', req_index = 0, req_key = ascii ''A-0'',
           req_origin = Foreground\<rparr>"
  have h: "pending (run (init (ascii ''K'')) [Fetch (ascii ''A'') 0]) 0 = Some ?r"
    by (simp add: run_def init_def generateChapterContent_def chapterKey_def decimal.simps
          ascii_def Let_def)
  show ?thesis
    using cache_inflight_disjoint [of "ascii ''K''" "[Fetch (ascii ''A'') 0]" "ascii ''A-0''" 0 ?r
        None "[]"] h
    by simp
qed

text \<open>
  The claim as the specification states it fails: after the \<^verbatim>\<open>try\<close> block of a
  successful request and before its \<^verbatim>\<open>finally\<close> block the key is in both maps, so the
  cache is updated before the key leaves the in-flight map.
\<close>

theorem cache_inflight_order_counterexample:
  "pending (run (init (ascii ''K'')) [Fetch (ascii ''A'') 0]) 0 =
     Some \<lparr>req_title = ascii ''A'', req_index = 0, req_key = ascii ''A-0'',
           req_origin = Foreground\<rparr> \<and>
   chapterCache
     (snd (requestTry \<lparr>req_title = ascii ''A'', req_index = 0, req_key = ascii ''A-0'',
              req_origin = Foreground\<rparr> (Text None)
            (run (init (ascii ''K'')) [Fetch (ascii ''A'') 0])))
     (ascii ''A-0'') = Some (buildChapter (ascii ''A-0'') 0 None) \<and>
   activeRequests
     (snd (requestTry \<lparr>req_title = ascii ''A'', req_index = 0, req_key = ascii ''A-0'',
              req_origin = Foreground\<rparr> (Text None)
            (run (init (ascii ''K'')) [Fetch (ascii ''A'') 0])))
     (ascii ''A-0'') = Some 0"
  by (simp add: run_def init_def generateChapterContent_def chapterKey_def decimal.simps
        ascii_def Let_def requestTry_def)

section \<open>Cache hits\<close>

text \<open>
  Claim C5. Once a key is cached in a reachable state, then after any further events the
  cache holds the same chapter for it, the number of adapter calls for it is what it was
  (so it stays at 1 when the first call succeeded), and every call of
  \<^verbatim>\<open>generateChapterContent\<close> for that key returns the cached chapter at once and leaves
  the state as it is.
\<close>

theorem cache_hit_forever:
  assumes "chapterCache (run (init key) evs) k = Some c"
  shows "chapterCache (run (run (init key) evs) evs') k = Some c \<and>
     adapterCalls k (run (run (init key) evs) evs') = adapterCalls k (run (init key) evs) \<and>
     (chapterKey t i = k \<longrightarrow>
        generateChapterContent og t i (run (run (init key) evs) evs') =
          (Immediate c, run (run (init key) evs) evs'))"
proof -
  let ?s = "run (init key) evs"
  let ?s' = "run ?s evs'"
  have ok: "consistent ?s" by (rule consistent_reachable)
  from cached_run [OF ok assms]
  have c: "chapterCache ?s' k = Some c" and n: "adapterCalls k ?s' = adapterCalls k ?s"
    by auto
  have "apiKey ?s \<noteq> []"
    using ok assms unfolding consistent_def maps_ok_def by auto
  then have "apiKey ?s' \<noteq> []" by (simp add: run_apiKey)
  then have "generateChapterContent og t i ?s' = (Immediate c, ?s')" if "chapterKey t i = k"
    using c that by (simp add: gcc_cached)
  with c n show ?thesis by simp
qed

theorem cache_hit_forever_witness:
  "chapterCache (run (init (ascii ''K'')) [Fetch (ascii ''A'') 0, Settle 0 (Text (Some (ascii ''T'')))])
      (chapterKey (ascii ''A'') 0) =
     Some \<lparr>ch_id = ascii ''A-0'', ch_title = ascii ''T'', ch_content = [], ch_number = 1\<rparr> \<and>
   adapterCalls (chapterKey (ascii ''A'') 0)
     (run (run (init (ascii ''K'')) [Fetch (ascii ''A'') 0, Settle 0 (Text (Some (ascii ''T'')))])
        [Fetch (ascii ''A'') 0, SchedulePreload (ascii ''A'') 0]) = 1 \<and>
   fst (generateChapterContent Foreground (ascii ''A'') 0
     (run (run (init (ascii ''K'')) [Fetch (ascii ''A'') 0, Settle 0 (Text (Some (ascii ''T'')))])
        [Fetch (ascii ''A'') 0, SchedulePreload (ascii ''A'') 0])) =
     Immediate \<lparr>ch_id = ascii ''A-0'', ch_title = ascii ''T'', ch_content = [], ch_number = 1\<rparr>"
proof -
  let ?evs = "[Fetch (ascii ''A'') 0, Settle 0 (Text (Some (ascii ''T'')))]"
  let ?c = "\<lparr>ch_id = ascii ''A-0'', ch_title = ascii ''T'', ch_content = [], ch_number = 1\<rparr>"
  have h: "chapterCache (run (init (ascii ''K'')) ?evs) (chapterKey (ascii ''A'') 0) = Some ?c"
    by (simp add: run_def init_def generateChapterContent_def chapterKey_def decimal.simps
          ascii_def settle_def requestTry_def requestFinally_def Let_def buildChapter_def
          strip_heading_def)
  have n: "adapterCalls (chapterKey (ascii ''A'') 0) (run (init (ascii ''K'')) ?evs) = 1"
    by (simp add: run_def init_def generateChapterContent_def chapterKey_def decimal.simps
          ascii_def settle_def requestTry_def requestFinally_def Let_def adapterCalls_def)
  show ?thesis
    using cache_hit_forever [OF h, of "[Fetch (ascii ''A'') 0, SchedulePreload (ascii ''A'') 0]"
        "ascii ''A''" 0 Foreground] h n
    by simp
qed

section \<open>Failed requests\<close>

text \<open>
  When the adapter call of a pending request is rejected, its key is afterwards neither
  cached nor in flight, and the next call of \<^verbatim>\<open>generateChapterContent\<close> for that key
  starts a new request: it calls the adapter once more.
\<close>

lemma failed_fetch_retryable:
  assumes "pending (run (init key) evs) p = Some r" "chapterKey t i = req_key r"
  shows "chapterCache (settle p (Throws e) (run (init key) evs)) (req_key r) = None \<and>
     activeRequests (settle p (Throws e) (run (init key) evs)) (req_key r) = None \<and>
     fst (generateChapterContent og t i (settle p (Throws e) (run (init key) evs))) =
       Guarded (nextPromise (run (init key) evs)) i \<and>
     adapterLog (snd (generateChapterContent og t i (settle p (Throws e) (run (init key) evs)))) =
       adapterLog (run (init key) evs) @ [(t, i)] \<and>
     adapterCalls (req_key r)
       (snd (generateChapterContent og t i (settle p (Throws e) (run (init key) evs)))) =
       adapterCalls (req_key r) (run (init key) evs) + 1"
proof -
  let ?s = "run (init key) evs"
  let ?s' = "settle p (Throws e) ?s"
  have ok: "maps_ok ?s" by (rule maps_ok_reachable)
  have act: "activeRequests ?s (req_key r) = Some p"
    using ok assms(1) by (rule maps_ok_inflight)
  with maps_ok_disjoint [OF ok, of "req_key r"]
  have nc: "chapterCache ?s (req_key r) = None" by auto
  have k: "apiKey ?s \<noteq> []"
    using ok assms(1) by (rule maps_ok_pending_key)
  have c': "chapterCache ?s' (chapterKey t i) = None"
    and a': "activeRequests ?s' (chapterKey t i) = None"
    and k': "apiKey ?s' \<noteq> []"
    and n': "nextPromise ?s' = nextPromise ?s"
    and l': "adapterLog ?s' = adapterLog ?s"
    using nc k assms(2) by (simp_all add: settle_Throws [OF assms(1)])
  show ?thesis
    using c' a' n' l' assms(2)
    by (simp add: gcc_fresh [OF k' c' a'] adapterCalls_def)
qed

text \<open>
  Claim C6: after a failed fetch, by an adapter error or by a payload below the minimum
  length, the key is neither cached nor in flight and a later fetch may call the adapter
  again. For a payload below the minimum length the code does not do this. With the key
  \<^verbatim>\<open>K\<close>, a call for chapter 0 of \<^verbatim>\<open>A\<close> and the adapter answering a title line and the
  body \<^verbatim>\<open>short\<close>: the reader does not accept the chapter, yet after any further events
  the key is cached with it, every call for the key returns it at once, and the adapter
  has been called for the key exactly once.
\<close>

theorem short_payload_cached_for_good:
  "accepted (Resolved \<lparr>ch_id = ascii ''A-0'', ch_title = ascii ''T'',
      ch_content = ascii ''short'', ch_number = 1\<rparr>) = None \<and>
   chapterCache
     (run (run (init (ascii ''K''))
        [Fetch (ascii ''A'') 0,
         Settle 0 (Text (Some (ascii ''T'' @ [0x0A] @ ascii ''short'')))]) evs) (ascii ''A-0'') =
     Some \<lparr>ch_id = ascii ''A-0'', ch_title = ascii ''T'', ch_content = ascii ''short'',
      ch_number = 1\<rparr> \<and>
   generateChapterContent Foreground (ascii ''A'') 0
     (run (run (init (ascii ''K''))
        [Fetch (ascii ''A'') 0,
         Settle 0 (Text (Some (ascii ''T'' @ [0x0A] @ ascii ''short'')))]) evs) =
     (Immediate \<lparr>ch_id = ascii ''A-0'', ch_title = ascii ''T'', ch_content = ascii ''short'',
        ch_number = 1\<rparr>,
      run (run (init (ascii ''K''))
        [Fetch (ascii ''A'') 0,
         Settle 0 (Text (Some (ascii ''T'' @ [0x0A] @ ascii ''short'')))]) evs) \<and>
   adapterCalls (ascii ''A-0'')
     (run (run (init (ascii ''K''))
        [Fetch (ascii ''A'') 0,
         Settle 0 (Text (Some (ascii ''T'' @ [0x0A] @ ascii ''short'')))]) evs) = 1"
proof -
  let ?evs0 = "[Fetch (ascii ''A'') 0,
         Settle 0 (Text (Some (ascii ''T'' @ [0x0A] @ ascii ''short'')))]"
  let ?s = "run (init (ascii ''K'')) ?evs0"
  let ?c = "\<lparr>ch_id = ascii ''A-0'', ch_title = ascii ''T'', ch_content = ascii ''short'',
      ch_number = 1\<rparr>"
  have a: "accepted (Resolved ?c) = None" by (simp add: accepted_def ascii_def)
  have k: "chapterKey (ascii ''A'') 0 = ascii ''A-0''"
    by (simp add: chapterKey_def decimal.simps ascii_def)
  have c0: "chapterCache ?s (ascii ''A-0'') = Some ?c"
    by (simp add: run_def init_def generateChapterContent_def chapterKey_def decimal.simps
          ascii_def settle_def requestTry_def requestFinally_def Let_def buildChapter_def
          strip_heading_def)
  have n0: "adapterCalls (ascii ''A-0'') ?s = 1"
    by (simp add: run_def init_def generateChapterContent_def chapterKey_def decimal.simps
          ascii_def settle_def requestTry_def requestFinally_def Let_def adapterCalls_def)
  have ok: "consistent ?s" by (rule consistent_reachable)
  from cached_run [OF ok c0, of evs]
  have c: "chapterCache (run ?s evs) (ascii ''A-0'') = Some ?c"
    and n: "adapterCalls (ascii ''A-0'') (run ?s evs) = 1"
    using n0 by simp_all
  have "apiKey (run ?s evs) = ascii ''K''" by (simp add: run_apiKey init_def)
  then have key: "apiKey (run ?s evs) \<noteq> []" by (simp add: ascii_def)
  have g: "generateChapterContent Foreground (ascii ''A'') 0 (run ?s evs) =
      (Immediate ?c, run ?s evs)"
  proof (rule gcc_cached [OF key])
    show "chapterCache (run ?s evs) (chapterKey (ascii ''A'') 0) = Some ?c"
      unfolding k by (rule c)
  qed
  from a c g n show ?thesis by blast
qed

section \<open>Scheduling preloads\<close>

text \<open>
  Claim C7, as amended, for every reachable state. A preload for a key that is cached or in
  flight is skipped: \<^verbatim>\<open>preloadChapter\<close> changes nothing. With the API key present,
  the key neither cached nor in flight and fewer than three tasks running, the first of two
  calls in a row starts its task at once (the queue is empty again, the adapter is called
  and the key is in flight) and the second call is skipped. With three tasks running, the
  first call leaves its task in the queue, where the key is not in flight, and the second
  call queues a second task for the same key: the queue itself is not searched.
\<close>

theorem preload_twice:
  "(chapterCache (run (init key) evs) (chapterKey t i) \<noteq> None \<or>
    activeRequests (run (init key) evs) (chapterKey t i) \<noteq> None \<longrightarrow>
      preloadChapter t i (run (init key) evs) = run (init key) evs) \<and>
   (key \<noteq> [] \<and> chapterCache (run (init key) evs) (chapterKey t i) = None \<and>
    activeRequests (run (init key) evs) (chapterKey t i) = None \<and>
    activeWorkers (run (init key) evs) < CONCURRENCY_LIMIT \<longrightarrow>
      running (preloadChapter t i (run (init key) evs)) =
        running (run (init key) evs) @ [Guarded (nextPromise (run (init key) evs)) i] \<and>
      preloadQueue (preloadChapter t i (run (init key) evs)) = [] \<and>
      adapterLog (preloadChapter t i (run (init key) evs)) =
        adapterLog (run (init key) evs) @ [(t, i)] \<and>
      activeRequests (preloadChapter t i (run (init key) evs)) (chapterKey t i) =
        Some (nextPromise (run (init key) evs)) \<and>
      preloadChapter t i (preloadChapter t i (run (init key) evs)) =
        preloadChapter t i (run (init key) evs)) \<and>
   (chapterCache (run (init key) evs) (chapterKey t i) = None \<and>
    activeRequests (run (init key) evs) (chapterKey t i) = None \<and>
    activeWorkers (run (init key) evs) \<ge> CONCURRENCY_LIMIT \<longrightarrow>
      preloadChapter t i (preloadChapter t i (run (init key) evs)) =
        (run (init key) evs)\<lparr>preloadQueue :=
           preloadQueue (run (init key) evs) @ [(t, i), (t, i)]\<rparr>)"
proof -
  let ?s = "run (init key) evs"
  have a: "preloadChapter t i ?s = ?s"
    if "chapterCache ?s (chapterKey t i) \<noteq> None \<or> activeRequests ?s (chapterKey t i) \<noteq> None"
    using that by (rule preloadChapter_skip)
  have k: "apiKey ?s = key" by (simp add: run_apiKey init_def)
  have qok: "queue_ok ?s"
    using consistent_reachable [of key evs] by (simp add: consistent_def)
  have b: "running (preloadChapter t i ?s) = running ?s @ [Guarded (nextPromise ?s) i] \<and>
      preloadQueue (preloadChapter t i ?s) = [] \<and>
      adapterLog (preloadChapter t i ?s) = adapterLog ?s @ [(t, i)] \<and>
      activeRequests (preloadChapter t i ?s) (chapterKey t i) = Some (nextPromise ?s) \<and>
      preloadChapter t i (preloadChapter t i ?s) = preloadChapter t i ?s"
    if h: "key \<noteq> []" "chapterCache ?s (chapterKey t i) = None"
      "activeRequests ?s (chapterKey t i) = None" "activeWorkers ?s < CONCURRENCY_LIMIT"
  proof -
    have q: "preloadQueue ?s = []"
      using qok h(4) by (simp add: queue_ok_def)
    have ak: "apiKey ?s \<noteq> []" using k h(1) by simp
    note st = preloadChapter_started [OF ak h(2) h(3) q h(4)]
    have "activeRequests (preloadChapter t i ?s) (chapterKey t i) \<noteq> None"
      unfolding st by simp
    then have "preloadChapter t i (preloadChapter t i ?s) = preloadChapter t i ?s"
      by (simp add: preloadChapter_skip)
    moreover have "running (preloadChapter t i ?s) = running ?s @ [Guarded (nextPromise ?s) i]"
      "preloadQueue (preloadChapter t i ?s) = []"
      "adapterLog (preloadChapter t i ?s) = adapterLog ?s @ [(t, i)]"
      "activeRequests (preloadChapter t i ?s) (chapterKey t i) = Some (nextPromise ?s)"
      unfolding st using q by simp_all
    ultimately show ?thesis by simp
  qed
  have c: "preloadChapter t i (preloadChapter t i ?s) =
      ?s\<lparr>preloadQueue := preloadQueue ?s @ [(t, i), (t, i)]\<rparr>"
    if h: "chapterCache ?s (chapterKey t i) = None" "activeRequests ?s (chapterKey t i) = None"
      "activeWorkers ?s \<ge> CONCURRENCY_LIMIT"
  proof -
    note first = preloadChapter_queued [OF h]
    have "preloadChapter t i (?s\<lparr>preloadQueue := preloadQueue ?s @ [(t, i)]\<rparr>) =
        ?s\<lparr>preloadQueue := preloadQueue ?s @ [(t, i)]\<rparr>
          \<lparr>preloadQueue := preloadQueue (?s\<lparr>preloadQueue := preloadQueue ?s @ [(t, i)]\<rparr>) @ [(t, i)]\<rparr>"
      by (rule preloadChapter_queued) (use h in simp_all)
    then show ?thesis unfolding first by simp
  qed
  from a b c show ?thesis by blast
qed

theorem preload_twice_witness:
  "activeRequests saturated (chapterKey (ascii ''A'') 1) \<noteq> None \<and>
   preloadChapter (ascii ''A'') 1 saturated = saturated \<and>
   ascii ''K'' \<noteq> [] \<and>
   chapterCache (run (init (ascii ''K'')) []) (chapterKey (ascii ''A'') 1) = None \<and>
   activeRequests (run (init (ascii ''K'')) []) (chapterKey (ascii ''A'') 1) = None \<and>
   activeWorkers (run (init (ascii ''K'')) []) < CONCURRENCY_LIMIT \<and>
   running (preloadChapter (ascii ''A'') 1 (run (init (ascii ''K'')) [])) = [Guarded 0 1] \<and>
   preloadChapter (ascii ''A'') 1 (preloadChapter (ascii ''A'') 1 (run (init (ascii ''K'')) [])) =
     preloadChapter (ascii ''A'') 1 (run (init (ascii ''K'')) []) \<and>
   chapterCache saturated (chapterKey (ascii ''A'') 6) = None \<and>
   activeRequests saturated (chapterKey (ascii ''A'') 6) = None \<and>
   activeWorkers saturated \<ge> CONCURRENCY_LIMIT \<and>
   preloadQueue (preloadChapter (ascii ''A'') 6 (preloadChapter (ascii ''A'') 6 saturated)) =
     [(ascii ''A'', 4), (ascii ''A'', 5), (ascii ''A'', 6), (ascii ''A'', 6)]"
proof -
  let ?five = "[SchedulePreload (ascii ''A'') 1, SchedulePreload (ascii ''A'') 2,
      SchedulePreload (ascii ''A'') 3, SchedulePreload (ascii ''A'') 4,
      SchedulePreload (ascii ''A'') 5]"
  have k: "ascii ''K'' \<noteq> []" by (simp add: ascii_def)
  have a1: "activeRequests saturated (chapterKey (ascii ''A'') 1) \<noteq> None"
    unfolding saturated_eval by simp
  have a2: "preloadChapter (ascii ''A'') 1 saturated = saturated"
    using preload_twice [of "ascii ''K''" ?five "ascii ''A''" 1] a1
    unfolding saturated_def [symmetric] by blast
  have b0: "chapterCache (run (init (ascii ''K'')) []) (chapterKey (ascii ''A'') 1) = None"
    "activeRequests (run (init (ascii ''K'')) []) (chapterKey (ascii ''A'') 1) = None"
    "activeWorkers (run (init (ascii ''K'')) []) < CONCURRENCY_LIMIT"
    "running (run (init (ascii ''K'')) []) = []" "nextPromise (run (init (ascii ''K'')) []) = 0"
    by (simp_all add: run_def init_def CONCURRENCY_LIMIT_def)
  have b1: "running (preloadChapter (ascii ''A'') 1 (run (init (ascii ''K'')) [])) =
        running (run (init (ascii ''K'')) []) @
        [Guarded (nextPromise (run (init (ascii ''K'')) [])) 1] \<and>
      preloadChapter (ascii ''A'') 1
        (preloadChapter (ascii ''A'') 1 (run (init (ascii ''K'')) [])) =
      preloadChapter (ascii ''A'') 1 (run (init (ascii ''K'')) [])"
    using preload_twice [of "ascii ''K''" "[]" "ascii ''A''" 1] k b0(1-3) by blast
  have c0: "chapterCache saturated (chapterKey (ascii ''A'') 6) = None"
    "activeRequests saturated (chapterKey (ascii ''A'') 6) = None"
    "activeWorkers saturated \<ge> CONCURRENCY_LIMIT"
    by (simp_all add: saturated_eval CONCURRENCY_LIMIT_def)
  have "preloadChapter (ascii ''A'') 6 (preloadChapter (ascii ''A'') 6 saturated) =
      saturated\<lparr>preloadQueue := preloadQueue saturated @ [(ascii ''A'', 6), (ascii ''A'', 6)]\<rparr>"
    using preload_twice [of "ascii ''K''" ?five "ascii ''A''" 6] c0
    unfolding saturated_def [symmetric] by blast
  then have c1: "preloadQueue
      (preloadChapter (ascii ''A'') 6 (preloadChapter (ascii ''A'') 6 saturated)) =
      [(ascii ''A'', 4), (ascii ''A'', 5), (ascii ''A'', 6), (ascii ''A'', 6)]"
    by (simp add: saturated_eval)
  from b1 have b2: "running (preloadChapter (ascii ''A'') 1 (run (init (ascii ''K'')) [])) =
      [Guarded 0 1]"
    unfolding b0 by simp
  from k a1 a2 b0(1-3) b1 b2 c0 c1 show ?thesis by blast
qed

text \<open>
  The claim as the specification states it fails: with three tasks running, two calls for
  the same chapter leave two queued tasks for it.
\<close>

theorem preload_twice_counterexample:
  "preloadQueue
     (run (init (ascii ''K''))
        [SchedulePreload (ascii ''A'') 1, SchedulePreload (ascii ''A'') 2,
         SchedulePreload (ascii ''A'') 3, SchedulePreload (ascii ''A'') 4,
         SchedulePreload (ascii ''A'') 4]) =
     [(ascii ''A'', 4), (ascii ''A'', 4)]"
  by (simp add: run_def init_def preloadChapter_def processQueue_def
        generateChapterContent_def chapterKey_def decimal.simps ascii_def Let_def
        CONCURRENCY_LIMIT_def)

section \<open>Bounded preload concurrency\<close>

text \<open>
  Claim C8. In every reachable state at most 3 adapter calls started by preload tasks are
  pending: their number is at most the worker counter, which never exceeds
  \<^verbatim>\<open>CONCURRENCY_LIMIT\<close>, however long the queue is (\<open>preloadCalls\<close> looks at the
  promises below \<open>nextPromise\<close>, and every pending request is one of them). A foreground call for a key that is
  neither cached nor in flight calls the adapter in every reachable state, whatever the
  worker counter is.
\<close>

theorem preload_calls_bounded:
  "preloadCalls (run (init key) evs) \<le> 3 \<and>
   int (preloadCalls (run (init key) evs)) \<le> activeWorkers (run (init key) evs) \<and>
   activeWorkers (run (init key) evs) \<le> CONCURRENCY_LIMIT \<and>
   (pending (run (init key) evs) p \<noteq> None \<longrightarrow> p < nextPromise (run (init key) evs)) \<and>
   (key \<noteq> [] \<and> chapterCache (run (init key) evs) (chapterKey t i) = None \<and>
    activeRequests (run (init key) evs) (chapterKey t i) = None \<longrightarrow>
      fst (generateChapterContent Foreground t i (run (init key) evs)) =
        Guarded (nextPromise (run (init key) evs)) i \<and>
      adapterLog (snd (generateChapterContent Foreground t i (run (init key) evs))) =
        adapterLog (run (init key) evs) @ [(t, i)])"
proof -
  let ?s = "run (init key) evs"
  have ok: "maps_ok ?s" "workers_ok ?s"
    using consistent_reachable [of key evs] by (simp_all add: consistent_def)
  have le: "preloadCalls ?s \<le> length (running ?s)"
    using ok by (rule preloadCalls_le_running)
  have w: "activeWorkers ?s = int (length (running ?s))" "activeWorkers ?s \<le> CONCURRENCY_LIMIT"
    using ok(2) unfolding workers_ok_def by simp_all
  have k: "apiKey ?s = key" by (simp add: run_apiKey init_def)
  have b: "preloadCalls ?s \<le> 3" "int (preloadCalls ?s) \<le> activeWorkers ?s"
    using le w by (simp_all add: CONCURRENCY_LIMIT_def)
  have fg: "fst (generateChapterContent Foreground t i ?s) = Guarded (nextPromise ?s) i \<and>
      adapterLog (snd (generateChapterContent Foreground t i ?s)) = adapterLog ?s @ [(t, i)]"
    if "key \<noteq> []" "chapterCache ?s (chapterKey t i) = None"
      "activeRequests ?s (chapterKey t i) = None"
    using that k by (simp add: gcc_fresh)
  have all: "p < nextPromise ?s" if "pending ?s p \<noteq> None"
    using ok(1) that unfolding maps_ok_def by blast
  from b w(2) fg all show ?thesis by blast
qed

theorem preload_calls_bounded_witness:
  "ascii ''K'' \<noteq> [] \<and>
   chapterCache saturated (chapterKey (ascii ''A'') 0) = None \<and>
   activeRequests saturated (chapterKey (ascii ''A'') 0) = None \<and>
   activeWorkers saturated = 3 \<and>
   pending saturated 2 \<noteq> None \<and>
   length (preloadQueue saturated) = 2 \<and>
   preloadCalls saturated \<le> 3 \<and>
   adapterLog (snd (generateChapterContent Foreground (ascii ''A'') 0 saturated)) =
     [(ascii ''A'', 1), (ascii ''A'', 2), (ascii ''A'', 3), (ascii ''A'', 0)]"
proof -
  have k: "ascii ''K'' \<noteq> []" by (simp add: ascii_def)
  show ?thesis
    using preload_calls_bounded [of "ascii ''K''"
        "[SchedulePreload (ascii ''A'') 1, SchedulePreload (ascii ''A'') 2,
          SchedulePreload (ascii ''A'') 3, SchedulePreload (ascii ''A'') 4,
          SchedulePreload (ascii ''A'') 5]" 2 "ascii ''A''" 0] k
    unfolding saturated_def [symmetric]
    by (simp add: saturated_eval)
qed

section \<open>Retry and final failure\<close>

text \<open>
  Claim C3, as amended. Take a session that starts as at mount: one call of
  \<^verbatim>\<open>loadChapter\<close> is in progress with its call of \<^verbatim>\<open>generateChapterContent\<close> made, and
  the retry count is 0 in its closure and in the current state. As long as the chapter is
  not changed, the session issues at most three further calls, four in all. If no call
  succeeds, then once nothing is in progress the failure panel is shown, the retry count
  is 3 and exactly three retries have been made, each after 1500 ms: final failure comes
  with the fourth failure and there is no fifth call. After exactly three failures the
  failure panel is not shown, the fourth call is made when the timer fires, and when it
  fails too nothing is in progress any more.
\<close>

theorem four_failures_final:
  assumes "attempt 0 Fetching sys"
  shows
   "(list_all sessionEvent evs \<longrightarrow>
       length (calls (runReader sys evs)) \<le> length (calls sys) + 3) \<and>
    (list_all failingEvent evs \<and> runs (runReader sys evs) = [] \<longrightarrow>
       finalFailure (live (runReader sys evs)) \<and>
       retryCount (live (runReader sys evs)) = 3 \<and>
       calls (runReader sys evs) =
         calls sys @ replicate 3 (1500, prop_title sys, chapterIndex (live sys))) \<and>
    (accepted o1 = None \<and> accepted o2 = None \<and> accepted o3 = None \<longrightarrow>
       \<not> finalFailure (live (runReader sys
           [CallSettled 0 o1, TimerFired 0, CallSettled 0 o2, TimerFired 0, CallSettled 0 o3])) \<and>
       calls (runReader sys
           [CallSettled 0 o1, TimerFired 0, CallSettled 0 o2, TimerFired 0, CallSettled 0 o3,
            TimerFired 0]) =
         calls sys @ replicate 3 (1500, prop_title sys, chapterIndex (live sys)) \<and>
       (accepted o4 = None \<longrightarrow>
          runs (runReader sys
           [CallSettled 0 o1, TimerFired 0, CallSettled 0 o2, TimerFired 0, CallSettled 0 o3,
            TimerFired 0, CallSettled 0 o4]) = []))"
proof -
  let ?i = "chapterIndex (live sys)"
  let ?X = "(1500, prop_title sys, ?i)"
  have bound: "length (calls (runReader sys evs)) \<le> length (calls sys) + 3"
    if ev: "list_all sessionEvent evs"
  proof -
    have "sessionInv False (calls sys) ?i (runReader sys evs)"
      using attempt_sessionInv [OF assms] ev by (rule sessionInv_run) simp
    then obtain n where n: "calls (runReader sys evs) =
        calls sys @ replicate n (1500, prop_title (runReader sys evs), ?i)"
      and c: "case runs (runReader sys evs) of
           [] \<Rightarrow> n \<le> 3 \<and>
                (False \<longrightarrow> n = 3 \<and> finalFailure (live (runReader sys evs)) \<and>
                   retryCount (live (runReader sys evs)) = 3)
         | r # rs \<Rightarrow>
             rs = [] \<and> retryCount (closure r) = retryCount (live (runReader sys evs)) \<and>
             chapterIndex (closure r) = ?i \<and> chapterIndex (live (runReader sys evs)) = ?i \<and>
             retryCount (live (runReader sys evs)) \<le> 3 \<and>
             retryCount (live (runReader sys evs)) = n + (if phase r = Waiting then 1 else 0)"
      unfolding sessionInv_def by blast
    from c have "n \<le> 3"
      by (cases "runs (runReader sys evs)") (auto split: if_splits)
    with n show ?thesis by simp
  qed
  have final: "finalFailure (live (runReader sys evs)) \<and>
       retryCount (live (runReader sys evs)) = 3 \<and>
       calls (runReader sys evs) = calls sys @ replicate 3 ?X"
    if ev: "list_all failingEvent evs" and empty: "runs (runReader sys evs) = []"
  proof -
    have sev: "list_all sessionEvent evs"
      using ev by (auto simp: list_all_iff failing_sessionEvent)
    have "sessionInv True (calls sys) ?i (runReader sys evs)"
      using attempt_sessionInv [OF assms] sev by (rule sessionInv_run) (simp add: ev)
    then show ?thesis
      unfolding sessionInv_def using empty by (auto simp: run_prop_title)
  qed
  have three: "\<not> finalFailure (live (runReader sys
           [CallSettled 0 o1, TimerFired 0, CallSettled 0 o2, TimerFired 0, CallSettled 0 o3])) \<and>
       calls (runReader sys
           [CallSettled 0 o1, TimerFired 0, CallSettled 0 o2, TimerFired 0, CallSettled 0 o3,
            TimerFired 0]) = calls sys @ replicate 3 ?X \<and>
       (accepted o4 = None \<longrightarrow>
          runs (runReader sys
           [CallSettled 0 o1, TimerFired 0, CallSettled 0 o2, TimerFired 0, CallSettled 0 o3,
            TimerFired 0, CallSettled 0 o4]) = [])"
    if f: "accepted o1 = None" "accepted o2 = None" "accepted o3 = None"
  proof -
    let ?e5 = "[CallSettled 0 o1, TimerFired 0, CallSettled 0 o2, TimerFired 0, CallSettled 0 o3]"
    define s5 where "s5 = runReader sys ?e5"
    define s6 where "s6 = timerFired 0 s5"
    from three_rounds [OF assms f]
    have 5: "attempt 3 Waiting s5" "isAutoSwitching (live s5)"
      "calls s5 = calls sys @ replicate 2 ?X" "chapterIndex (live s5) = ?i"
      by (simp_all add: s5_def)
    have t5: "prop_title s5 = prop_title sys" by (simp add: s5_def run_prop_title)
    from attempt_timer [OF 5(1)]
    have 6: "attempt 3 Fetching s6" "calls s6 = calls sys @ replicate 3 ?X"
      using 5 t5 by (simp_all add: s6_def numeral_3_eq_3 numeral_2_eq_2)
    have r6: "runReader sys (?e5 @ [TimerFired 0]) = s6"
      unfolding runReader_snoc by (simp add: s6_def s5_def)
    have r7: "runReader sys ((?e5 @ [TimerFired 0]) @ [CallSettled 0 o4]) = callSettled 0 o4 s6"
      unfolding runReader_snoc [of sys "?e5 @ [TimerFired 0]"] r6 by simp
    have nf: "\<not> finalFailure (live s5)" using 5(2) by (simp add: finalFailure_def)
    have last: "runs (callSettled 0 o4 s6) = []" if "accepted o4 = None"
      using attempt_last [OF 6(1) _ that] by simp
    show ?thesis
      using nf 6(2) last r6 r7 by (simp add: s5_def)
  qed
  from bound final three show ?thesis by blast
qed

theorem four_failures_final_witness:
  "attempt 0 Fetching (mountReader (ascii ''NovelA'') None 0) \<and>
   accepted (Rejected (ascii ''boom'')) = None \<and>
   list_all failingEvent
     [CallSettled 0 (Rejected (ascii ''boom'')), TimerFired 0,
      CallSettled 0 (Rejected (ascii ''boom'')), TimerFired 0,
      CallSettled 0 (Rejected (ascii ''boom'')), TimerFired 0,
      CallSettled 0 (Rejected (ascii ''boom''))] \<and>
   runs (runReader (mountReader (ascii ''NovelA'') None 0)
     [CallSettled 0 (Rejected (ascii ''boom'')), TimerFired 0,
      CallSettled 0 (Rejected (ascii ''boom'')), TimerFired 0,
      CallSettled 0 (Rejected (ascii ''boom'')), TimerFired 0,
      CallSettled 0 (Rejected (ascii ''boom''))]) = [] \<and>
   finalFailure (live (runReader (mountReader (ascii ''NovelA'') None 0)
     [CallSettled 0 (Rejected (ascii ''boom'')), TimerFired 0,
      CallSettled 0 (Rejected (ascii ''boom'')), TimerFired 0,
      CallSettled 0 (Rejected (ascii ''boom'')), TimerFired 0,
      CallSettled 0 (Rejected (ascii ''boom''))])) \<and>
   calls (runReader (mountReader (ascii ''NovelA'') None 0)
     [CallSettled 0 (Rejected (ascii ''boom'')), TimerFired 0,
      CallSettled 0 (Rejected (ascii ''boom'')), TimerFired 0,
      CallSettled 0 (Rejected (ascii ''boom'')), TimerFired 0,
      CallSettled 0 (Rejected (ascii ''boom''))]) =
     [(0, ascii ''NovelA'', 0), (1500, ascii ''NovelA'', 0), (1500, ascii ''NovelA'', 0),
      (1500, ascii ''NovelA'', 0)]"
proof -
  let ?f = "Rejected (ascii ''boom'')"
  let ?sys = "mountReader (ascii ''NovelA'') None 0"
  let ?evs = "[CallSettled 0 ?f, TimerFired 0, CallSettled 0 ?f, TimerFired 0,
      CallSettled 0 ?f, TimerFired 0, CallSettled 0 ?f]"
  have h: "attempt 0 Fetching ?sys" by (rule mount_attempt)
  have a: "accepted ?f = None" by (simp add: accepted_def)
  have ev: "list_all failingEvent ?evs" by (simp add: a)
  note T = four_failures_final [OF h, of ?evs ?f ?f ?f ?f]
  have e: "runs (runReader ?sys ?evs) = []" using T a by blast
  have fin: "finalFailure (live (runReader ?sys ?evs)) \<and>
      calls (runReader ?sys ?evs) =
        calls ?sys @ replicate 3 (1500, prop_title ?sys, chapterIndex (live ?sys))"
    using T ev e by blast
  have c: "calls ?sys @ replicate 3 (1500, prop_title ?sys, chapterIndex (live ?sys)) =
      [(0, ascii ''NovelA'', 0), (1500, ascii ''NovelA'', 0), (1500, ascii ''NovelA'', 0),
       (1500, ascii ''NovelA'', 0)]"
    by (simp add: mount_calls numeral_3_eq_3)
  from h a ev e fin show ?thesis unfolding c by blast
qed

text \<open>
  The claim as the specification states it fails: after exactly three failures a fourth
  call has been issued and the failure panel is not shown.
\<close>

theorem three_failures_counterexample:
  "length (calls (runReader (mountReader (ascii ''NovelA'') None 0)
     [CallSettled 0 (Rejected (ascii ''boom'')), TimerFired 0,
      CallSettled 0 (Rejected (ascii ''boom'')), TimerFired 0,
      CallSettled 0 (Rejected (ascii ''boom'')), TimerFired 0])) = 4 \<and>
   \<not> finalFailure (live (runReader (mountReader (ascii ''NovelA'') None 0)
     [CallSettled 0 (Rejected (ascii ''boom'')), TimerFired 0,
      CallSettled 0 (Rejected (ascii ''boom'')), TimerFired 0,
      CallSettled 0 (Rejected (ascii ''boom'')), TimerFired 0]))"
proof -
  let ?f = "Rejected (ascii ''boom'')"
  let ?sys = "mountReader (ascii ''NovelA'') None 0"
  let ?e5 = "[CallSettled 0 ?f, TimerFired 0, CallSettled 0 ?f, TimerFired 0, CallSettled 0 ?f]"
  have a: "accepted ?f = None" by (simp add: accepted_def)
  from three_rounds [OF mount_attempt a a a, of "ascii ''NovelA''" None 0]
  have 5: "attempt 3 Waiting (runReader ?sys ?e5)" "isAutoSwitching (live (runReader ?sys ?e5))"
    "calls (runReader ?sys ?e5) =
       calls ?sys @ replicate 2 (1500, prop_title ?sys, chapterIndex (live ?sys))"
    by simp_all
  from attempt_timer [OF 5(1)]
  have 6: "calls (timerFired 0 (runReader ?sys ?e5)) =
       calls (runReader ?sys ?e5) @
         [(1500, prop_title (runReader ?sys ?e5), chapterIndex (live (runReader ?sys ?e5)))]"
    "live (timerFired 0 (runReader ?sys ?e5)) = live (runReader ?sys ?e5)"
    by simp_all
  have r: "runReader ?sys (?e5 @ [TimerFired 0]) = timerFired 0 (runReader ?sys ?e5)"
    unfolding runReader_snoc by simp
  have "length (calls (runReader ?sys (?e5 @ [TimerFired 0]))) = 4"
    unfolding r 6 5(3) by (simp add: mount_calls)
  moreover have "\<not> finalFailure (live (runReader ?sys (?e5 @ [TimerFired 0])))"
    unfolding r 6 using 5(2) by (simp add: finalFailure_def)
  ultimately show ?thesis by simp
qed

text \<open>
  Claim C9, as amended. Take a call of \<^verbatim>\<open>loadChapter\<close> whose closure has the retry count
  and the chapter of the current state, with the count below 3. When its call fails (it is
  rejected, or the chapter has the id \<^verbatim>\<open>'error'\<close> or fewer than 50 code units of
  content), \<^verbatim>\<open>retryCount\<close> grows by exactly one, \<^verbatim>\<open>isAutoSwitching\<close> is set, and the
  source name becomes the label of line 105 with the new count: the four code units of
  the Chinese for "backup line", a space, and the count in decimal. The effect runs again
  with \<^verbatim>\<open>loading\<close> set: a new call of \<^verbatim>\<open>loadChapter\<close> that saw the new count waits
  1500 ms and then calls \<^verbatim>\<open>generateChapterContent\<close> for the same title and chapter. A
  first failure gives the count 1 and the label ending in \<^verbatim>\<open>1\<close>.
\<close>

theorem failure_retries:
  assumes "j < length (runs sys)" "phase (runs sys ! j) = Fetching"
    "retryCount (closure (runs sys ! j)) = retryCount (live sys)"
    "chapterIndex (closure (runs sys ! j)) = chapterIndex (live sys)"
    "retryCount (live sys) < 3" "accepted out = None"
  shows "retryCount (live (callSettled j out sys)) = retryCount (live sys) + 1 \<and>
     isAutoSwitching (live (callSettled j out sys)) \<and>
     currentSourceName (live (callSettled j out sys)) =
       backupLabel (retryCount (live (callSettled j out sys))) \<and>
     loading (live (callSettled j out sys)) \<and>
     chapterIndex (live (callSettled j out sys)) = chapterIndex (live sys) \<and>
     calls (callSettled j out sys) = calls sys \<and>
     length (runs (callSettled j out sys)) = length (runs sys) \<and>
     phase (last (runs (callSettled j out sys))) = Waiting \<and>
     retryCount (closure (last (runs (callSettled j out sys)))) = retryCount (live sys) + 1 \<and>
     chapterIndex (closure (last (runs (callSettled j out sys)))) = chapterIndex (live sys) \<and>
     calls (timerFired (length (runs sys) - 1) (callSettled j out sys)) =
       calls sys @ [(1500, prop_title sys, chapterIndex (live sys))] \<and>
     (retryCount (live sys) = 0 \<longrightarrow>
        retryCount (live (callSettled j out sys)) = 1 \<and>
        currentSourceName (live (callSettled j out sys)) =
          [0x5907, 0x7528, 0x7EBF, 0x8DEF, 0x20, 0x31])"
proof -
  let ?c = "closure (runs sys ! j)"
  let ?l = "loadChapter_settled ?c out (live sys)"
  let ?rest = "take j (runs sys) @ drop (Suc j) (runs sys)"
  have c3: "retryCount ?c < 3" using assms(3,5) by simp
  note cs = callSettled_retry [OF assms(1,2) c3 assms(6) assms(4)]
  have l: "retryCount ?l = retryCount (live sys) + 1" "isAutoSwitching ?l"
    "currentSourceName ?l = backupLabel (retryCount (live sys) + 1)"
    "chapterIndex ?l = chapterIndex (live sys)"
    using assms(3) by (simp_all add: loadChapter_settled_retry [OF assms(6) c3])
  have len: "length ?rest = length (runs sys) - 1"
    using assms(1) by simp
  have n: "length (runs sys) - 1 < length (?rest @ [\<lparr>closure = ?l, phase = Waiting\<rparr>])"
    using len by simp
  have "(?rest @ [\<lparr>closure = ?l, phase = Waiting\<rparr>]) ! length ?rest =
       \<lparr>closure = ?l, phase = Waiting\<rparr>"
    by (rule nth_append_length)
  then have n2: "(?rest @ [\<lparr>closure = ?l, phase = Waiting\<rparr>]) ! (length (runs sys) - 1) =
       \<lparr>closure = ?l, phase = Waiting\<rparr>"
    unfolding len .
  have tf: "calls (timerFired (length (runs sys) - 1) (callSettled j out sys)) =
       calls sys @ [(1500, prop_title sys, chapterIndex (live sys))]"
    unfolding cs timerFired_def using n n2 l by (simp add: attemptDelay_def del: length_append)
  have one: "backupLabel (Suc 0) = [0x5907, 0x7528, 0x7EBF, 0x8DEF, 0x20, 0x31]"
    by (simp add: backupLabel_def decimal.simps)
  have main: "retryCount (live (callSettled j out sys)) = retryCount (live sys) + 1"
    "isAutoSwitching (live (callSettled j out sys))"
    "currentSourceName (live (callSettled j out sys)) = backupLabel (retryCount (live sys) + 1)"
    "loading (live (callSettled j out sys))"
    "chapterIndex (live (callSettled j out sys)) = chapterIndex (live sys)"
    "calls (callSettled j out sys) = calls sys"
    "length (runs (callSettled j out sys)) = length (runs sys)"
    "phase (last (runs (callSettled j out sys))) = Waiting"
    "retryCount (closure (last (runs (callSettled j out sys)))) = retryCount (live sys) + 1"
    "chapterIndex (closure (last (runs (callSettled j out sys)))) = chapterIndex (live sys)"
    unfolding cs using l assms(1) by simp_all
  from main tf one show ?thesis by simp
qed

theorem failure_retries_witness:
  "0 < length (runs (mountReader (ascii ''NovelA'') None 0)) \<and>
   phase (runs (mountReader (ascii ''NovelA'') None 0) ! 0) = Fetching \<and>
   retryCount (closure (runs (mountReader (ascii ''NovelA'') None 0) ! 0)) =
     retryCount (live (mountReader (ascii ''NovelA'') None 0)) \<and>
   chapterIndex (closure (runs (mountReader (ascii ''NovelA'') None 0) ! 0)) =
     chapterIndex (live (mountReader (ascii ''NovelA'') None 0)) \<and>
   retryCount (live (mountReader (ascii ''NovelA'') None 0)) < 3 \<and>
   accepted (Resolved \<lparr>ch_id = ascii ''NovelA-0'', ch_title = ascii ''T'',
      ch_content = ascii ''0123456789'', ch_number = 1\<rparr>) = None \<and>
   retryCount (live (callSettled 0
     (Resolved \<lparr>ch_id = ascii ''NovelA-0'', ch_title = ascii ''T'',
        ch_content = ascii ''0123456789'', ch_number = 1\<rparr>)
     (mountReader (ascii ''NovelA'') None 0))) = 1 \<and>
   isAutoSwitching (live (callSettled 0
     (Resolved \<lparr>ch_id = ascii ''NovelA-0'', ch_title = ascii ''T'',
        ch_content = ascii ''0123456789'', ch_number = 1\<rparr>)
     (mountReader (ascii ''NovelA'') None 0))) \<and>
   currentSourceName (live (callSettled 0
     (Resolved \<lparr>ch_id = ascii ''NovelA-0'', ch_title = ascii ''T'',
        ch_content = ascii ''0123456789'', ch_number = 1\<rparr>)
     (mountReader (ascii ''NovelA'') None 0))) = [0x5907, 0x7528, 0x7EBF, 0x8DEF, 0x20, 0x31] \<and>
   calls (timerFired 0 (callSettled 0
     (Resolved \<lparr>ch_id = ascii ''NovelA-0'', ch_title = ascii ''T'',
        ch_content = ascii ''0123456789'', ch_number = 1\<rparr>)
     (mountReader (ascii ''NovelA'') None 0))) =
     [(0, ascii ''NovelA'', 0), (1500, ascii ''NovelA'', 0)]"
proof -
  let ?out = "Resolved \<lparr>ch_id = ascii ''NovelA-0'', ch_title = ascii ''T'',
      ch_content = ascii ''0123456789'', ch_number = 1\<rparr>"
  let ?sys = "mountReader (ascii ''NovelA'') None 0"
  have h: "0 < length (runs ?sys)" "phase (runs ?sys ! 0) = Fetching"
    "retryCount (closure (runs ?sys ! 0)) = retryCount (live ?sys)"
    "chapterIndex (closure (runs ?sys ! 0)) = chapterIndex (live ?sys)"
    "retryCount (live ?sys) < 3"
    by (simp_all add: mount_calls mount_def)
  have a: "accepted ?out = None" by (simp add: accepted_def ascii_def)
  note T = failure_retries [OF h a]
  have z: "retryCount (live ?sys) = 0" "length (runs ?sys) - 1 = 0"
    "calls ?sys @ [(1500, prop_title ?sys, chapterIndex (live ?sys))] =
       [(0, ascii ''NovelA'', 0), (1500, ascii ''NovelA'', 0)]"
    by (simp_all add: mount_calls)
  have r1: "retryCount (live (callSettled 0 ?out ?sys)) = 1 \<and>
      currentSourceName (live (callSettled 0 ?out ?sys)) =
        [0x5907, 0x7528, 0x7EBF, 0x8DEF, 0x20, 0x31]"
    using T z(1) by blast
  have r2: "isAutoSwitching (live (callSettled 0 ?out ?sys))"
    using T by blast
  have "calls (timerFired (length (runs ?sys) - 1) (callSettled 0 ?out ?sys)) =
      calls ?sys @ [(1500, prop_title ?sys, chapterIndex (live ?sys))]"
    using T by blast
  then have r3: "calls (timerFired 0 (callSettled 0 ?out ?sys)) =
      [(0, ascii ''NovelA'', 0), (1500, ascii ''NovelA'', 0)]"
    unfolding z .
  from h a r1 r2 r3 show ?thesis by blast
qed

text \<open>
  The claim as the specification states it fails in the text of the label: after a first
  failure on a body of length 10 the source name is not \<^verbatim>\<open>fallback-1\<close>.
\<close>

theorem fallback_label_counterexample:
  "currentSourceName (live (callSettled 0
     (Resolved \<lparr>ch_id = ascii ''NovelA-0'', ch_title = ascii ''T'',
        ch_content = ascii ''0123456789'', ch_number = 1\<rparr>)
     (mountReader (ascii ''NovelA'') None 0))) = [0x5907, 0x7528, 0x7EBF, 0x8DEF, 0x20, 0x31] \<and>
   currentSourceName (live (callSettled 0
     (Resolved \<lparr>ch_id = ascii ''NovelA-0'', ch_title = ascii ''T'',
        ch_content = ascii ''0123456789'', ch_number = 1\<rparr>)
     (mountReader (ascii ''NovelA'') None 0))) \<noteq> ascii ''fallback-1''"
proof -
  let ?out = "Resolved \<lparr>ch_id = ascii ''NovelA-0'', ch_title = ascii ''T'',
      ch_content = ascii ''0123456789'', ch_number = 1\<rparr>"
  have a: "accepted ?out = None" by (simp add: accepted_def ascii_def)
  from attempt_fail [OF mount_attempt _ a, of "ascii ''NovelA''" None 0]
  have "currentSourceName (live (callSettled 0 ?out (mountReader (ascii ''NovelA'') None 0))) =
      backupLabel (Suc 0)" by simp
  then show ?thesis
    by (simp add: backupLabel_def decimal.simps ascii_def)
qed

subsection \<open>A chapter change during or after retries\<close>

text \<open>
  The two theorems above say nothing of a call of \<^verbatim>\<open>loadChapter\<close> whose closure is out of
  date. After four failures on chapter 0 the retry count is 3. The next button renders
  chapter 1 with that count: the loading effect starts with 3 in its closure, the reset
  effect sets the count to 0, and the loading effect starts again. When every call fails,
  five calls are made for chapter 1.
\<close>

lemma chapter_change_after_retries:
  "drop 4 (calls (runReader (mountReader (ascii ''NovelA'') None 0)
     [CallSettled 0 (Rejected []), TimerFired 0, CallSettled 0 (Rejected []), TimerFired 0,
      CallSettled 0 (Rejected []), TimerFired 0, CallSettled 0 (Rejected []),
      NextChapter,
      CallSettled 1 (Rejected []), TimerFired 0, CallSettled 0 (Rejected []), TimerFired 0,
      CallSettled 0 (Rejected []), TimerFired 0, CallSettled 0 (Rejected []), TimerFired 0,
      CallSettled 0 (Rejected [])])) =
     [(0, ascii ''NovelA'', 1), (1500, ascii ''NovelA'', 1), (1500, ascii ''NovelA'', 1),
      (1500, ascii ''NovelA'', 1), (1500, ascii ''NovelA'', 1)]"
  by (simp add: runReader_def mountReader_def startRun_def mount_def resetRetry_def
        attemptDelay_def callSettled_def timerFired_def nextChapter_def runEffects_def
        loadChapter_settled_def accepted_def Let_def)

end
